theory Spec2Isabelle
  imports Main "HOL-Library.Word"
begin

unbundle bit_operations_syntax

section \<open>Device constants of \<open>w25q128fv_driver.c\<close>\<close>

type_synonym uint8_t = "8 word"
type_synonym uint16_t = "16 word"
type_synonym uint32_t = "32 word"

definition W25Q128FV_PAGE_SIZE_IN_BYTES :: nat where
  "W25Q128FV_PAGE_SIZE_IN_BYTES = 256"

definition W25Q128FV_TOTAL_SECTORS_MINUS_ONE :: nat where
  "W25Q128FV_TOTAL_SECTORS_MINUS_ONE = 4084"

definition W25Q128FV_TOTAL_SECTORS :: nat where
  "W25Q128FV_TOTAL_SECTORS = 4085"

definition W25Q128FV_FLASH_MEMORY_TOTAL_SIZE_IN_BYTES :: nat where
  "W25Q128FV_FLASH_MEMORY_TOTAL_SIZE_IN_BYTES = 16731136"

definition W25Q128FV_SECTOR_SIZE_IN_BYTES :: nat where
  "W25Q128FV_SECTOR_SIZE_IN_BYTES = 4096"

definition W25Q128FV_MAX_CONSECUTIVE_PROGRAMMABLE_BYTES :: nat where
  "W25Q128FV_MAX_CONSECUTIVE_PROGRAMMABLE_BYTES = 255"

definition W25Q128FV_PAGE_PROGRAM_INSTRUCTION_MAX_SIZE_IN_BYTES :: nat where
  "W25Q128FV_PAGE_PROGRAM_INSTRUCTION_MAX_SIZE_IN_BYTES = 259"

definition W25Q128FV_ENABLE_RESET_INSTRUCTION :: uint8_t where
  "W25Q128FV_ENABLE_RESET_INSTRUCTION = 0x66"

definition W25Q128FV_RESET_DEVICE_INSTRUCTION :: uint8_t where
  "W25Q128FV_RESET_DEVICE_INSTRUCTION = 0x99"

definition W25Q128FV_READ_JEDEC_ID_INSTRUCTION :: uint8_t where
  "W25Q128FV_READ_JEDEC_ID_INSTRUCTION = 0x9F"

definition W25Q128FV_READ_DATA_INSTRUCTION :: uint8_t where
  "W25Q128FV_READ_DATA_INSTRUCTION = 0x03"

definition W25Q128FV_FAST_READ_INSTRUCTION :: uint8_t where
  "W25Q128FV_FAST_READ_INSTRUCTION = 0x0B"

definition W25Q128FV_SECTOR_ERASE_INSTRUCTION :: uint8_t where
  "W25Q128FV_SECTOR_ERASE_INSTRUCTION = 0x20"

definition W25Q128FV_CHIP_ERASE_INSTRUCTION :: uint8_t where
  "W25Q128FV_CHIP_ERASE_INSTRUCTION = 0xC7"

definition W25Q128FV_PAGE_PROGRAM_INSTRUCTION :: uint8_t where
  "W25Q128FV_PAGE_PROGRAM_INSTRUCTION = 0x02"

definition W25Q128FV_WRITE_ENABLE_INSTRUCTION :: uint8_t where
  "W25Q128FV_WRITE_ENABLE_INSTRUCTION = 0x06"

definition W25Q128FV_WRITE_DISABLE_INSTRUCTION :: uint8_t where
  "W25Q128FV_WRITE_DISABLE_INSTRUCTION = 0x04"

section \<open>Status codes\<close>

text \<open>
  \<open>HAL_StatusTypeDef\<close> is the enumeration of the STM32 HAL that the SPI calls return;
  \<open>hal_value\<close> gives the enumerators' numeric values, which is what the driver stores
  in its \<open>uint8_t ret\<close>.
\<close>

datatype HAL_StatusTypeDef = HAL_OK | HAL_ERROR | HAL_BUSY | HAL_TIMEOUT

fun hal_value :: "HAL_StatusTypeDef \<Rightarrow> uint8_t" where
  "hal_value HAL_OK = 0"
| "hal_value HAL_ERROR = 1"
| "hal_value HAL_BUSY = 2"
| "hal_value HAL_TIMEOUT = 3"

text \<open>
  The enumeration \<open>W25Q128FV_Status\<close> is declared in \<open>w25q128fv_driver.h\<close>, which is
  not among the sources. Its three enumerators used by the driver are taken as a
  parameter: a record of their numeric values.
\<close>

record status_codes =
  W25Q128FV_EC_OK :: uint8_t
  W25Q128FV_EC_NR :: uint8_t
  W25Q128FV_EC_ERR :: uint8_t

text \<open>
  The driver compares the result of \<open>HAL_ret_handler\<close> with \<open>W25Q128FV_EC_OK\<close>, and
  \<open>HAL_ret_handler\<close> passes \<open>HAL_OK\<close> through unchanged: the header has to give
  \<open>W25Q128FV_EC_OK\<close> the value of \<open>HAL_OK\<close>, and the two failure codes other values.
\<close>

definition codes_ok :: "status_codes \<Rightarrow> bool" where
  "codes_ok c \<longleftrightarrow>
     W25Q128FV_EC_OK c = hal_value HAL_OK \<and>
     W25Q128FV_EC_NR c \<noteq> W25Q128FV_EC_OK c \<and>
     W25Q128FV_EC_ERR c \<noteq> W25Q128FV_EC_OK c \<and>
     W25Q128FV_EC_NR c \<noteq> W25Q128FV_EC_ERR c"

definition HAL_ret_handler :: "status_codes \<Rightarrow> uint8_t \<Rightarrow> uint8_t" where
  "HAL_ret_handler c HAL_status =
     (if HAL_status = hal_value HAL_BUSY \<or> HAL_status = hal_value HAL_TIMEOUT
        then W25Q128FV_EC_NR c
      else if HAL_status = hal_value HAL_ERROR then W25Q128FV_EC_ERR c
      else HAL_status)"

section \<open>The bus: chip select, SPI transport and delays\<close>

text \<open>
  What the driver does to the outside is logged as a trace of events. The transport is a
  parameter: \<open>spi_status t k\<close> is the outcome of the \<open>k\<close>-th SPI call and
  \<open>spi_rx t k i\<close> the \<open>i\<close>-th byte it delivers when that call is a receive.
\<close>

datatype event =
    CS_low
  | CS_high
  | SPI_Transmit "uint8_t list"
  | SPI_Receive nat
  | Delay nat

record transport =
  spi_status :: "nat \<Rightarrow> HAL_StatusTypeDef"
  spi_rx :: "nat \<Rightarrow> nat \<Rightarrow> uint8_t"

record world =
  trace :: "event list"
  spi_calls :: nat

definition set_cs_pin_low :: "world \<Rightarrow> world" where
  "set_cs_pin_low w = w\<lparr>trace := trace w @ [CS_low]\<rparr>"

definition set_cs_pin_high :: "world \<Rightarrow> world" where
  "set_cs_pin_high w = w\<lparr>trace := trace w @ [CS_high]\<rparr>"

definition HAL_Delay :: "nat \<Rightarrow> world \<Rightarrow> world" where
  "HAL_Delay ms w = w\<lparr>trace := trace w @ [Delay ms]\<rparr>"

definition HAL_SPI_Transmit :: "transport \<Rightarrow> uint8_t list \<Rightarrow> world \<Rightarrow> uint8_t \<times> world" where
  "HAL_SPI_Transmit t pData w =
     (hal_value (spi_status t (spi_calls w)),
      w\<lparr>trace := trace w @ [SPI_Transmit pData], spi_calls := Suc (spi_calls w)\<rparr>)"

text \<open>The \<open>Size\<close> parameter of the HAL's receive is a \<open>uint16_t\<close>.\<close>

definition HAL_SPI_Receive ::
  "transport \<Rightarrow> uint16_t \<Rightarrow> world \<Rightarrow> uint8_t \<times> uint8_t list \<times> world" where
  "HAL_SPI_Receive t Size w =
     (hal_value (spi_status t (spi_calls w)),
      map (spi_rx t (spi_calls w)) [0..<unat Size],
      w\<lparr>trace := trace w @ [SPI_Receive (unat Size)], spi_calls := Suc (spi_calls w)\<rparr>)"

section \<open>Write enable and write disable\<close>

definition send_w25q128fv_write_enable_instruction ::
  "status_codes \<Rightarrow> transport \<Rightarrow> world \<Rightarrow> uint8_t \<times> world" where
  "send_w25q128fv_write_enable_instruction c t w =
     (let w1 = set_cs_pin_low w;
          (ret, w2) = HAL_SPI_Transmit t [W25Q128FV_WRITE_ENABLE_INSTRUCTION] w1;
          w3 = set_cs_pin_high w2;
          ret = HAL_ret_handler c ret
      in if ret \<noteq> W25Q128FV_EC_OK c then (ret, w3) else (W25Q128FV_EC_OK c, w3))"

definition send_w25q128fv_write_disable_instruction ::
  "status_codes \<Rightarrow> transport \<Rightarrow> world \<Rightarrow> uint8_t \<times> world" where
  "send_w25q128fv_write_disable_instruction c t w =
     (let w1 = set_cs_pin_low w;
          (ret, w2) = HAL_SPI_Transmit t [W25Q128FV_WRITE_DISABLE_INSTRUCTION] w1;
          w3 = set_cs_pin_high w2;
          ret = HAL_ret_handler c ret
      in if ret \<noteq> W25Q128FV_EC_OK c then (ret, w3) else (W25Q128FV_EC_OK c, w3))"

section \<open>Reset and identification\<close>

definition w25q128fv_software_reset ::
  "status_codes \<Rightarrow> transport \<Rightarrow> world \<Rightarrow> uint8_t \<times> world" where
  "w25q128fv_software_reset c t w =
     (let reset_instruction =
            [W25Q128FV_ENABLE_RESET_INSTRUCTION, W25Q128FV_RESET_DEVICE_INSTRUCTION];
          w1 = set_cs_pin_low w;
          (ret, w2) = HAL_SPI_Transmit t reset_instruction w1;
          w3 = set_cs_pin_high w2;
          ret = HAL_ret_handler c ret
      in if ret \<noteq> W25Q128FV_EC_OK c then (ret, w3)
         else (W25Q128FV_EC_OK c, HAL_Delay 1 w3))"

text \<open>
  The location \<open>*w25q128fv_id\<close> of the caller: its content and the number of stores made
  to it.
\<close>

record id_cell =
  content :: uint32_t
  stores :: nat

definition store_id :: "uint32_t \<Rightarrow> id_cell \<Rightarrow> id_cell" where
  "store_id v p = \<lparr>content = v, stores = Suc (stores p)\<rparr>"

definition w25q128fv_read_id ::
  "status_codes \<Rightarrow> transport \<Rightarrow> id_cell \<Rightarrow> world \<Rightarrow> uint8_t \<times> id_cell \<times> world" where
  "w25q128fv_read_id c t w25q128fv_id w =
     (let w1 = set_cs_pin_low w;
          (ret, w2) = HAL_SPI_Transmit t [W25Q128FV_READ_JEDEC_ID_INSTRUCTION] w1;
          ret = HAL_ret_handler c ret
      in if ret \<noteq> W25Q128FV_EC_OK c then (ret, w25q128fv_id, set_cs_pin_high w2)
         else
           let (ret, w25q128fv_resp, w3) = HAL_SPI_Receive t 3 w2;
               w4 = set_cs_pin_high w3;
               ret = HAL_ret_handler c ret
           in if ret \<noteq> W25Q128FV_EC_OK c then (ret, w25q128fv_id, w4)
              else if w25q128fv_resp ! 0 = 0x00 \<and> w25q128fv_resp ! 1 = 0x00
                      \<and> w25q128fv_resp ! 2 = 0x00
                then (W25Q128FV_EC_NR c, w25q128fv_id, w4)
              else (W25Q128FV_EC_OK c,
                    store_id (push_bit 16 (ucast (w25q128fv_resp ! 0))
                                OR push_bit 8 (ucast (w25q128fv_resp ! 1))
                                OR ucast (w25q128fv_resp ! 2)) w25q128fv_id,
                    w4))"

section \<open>Reading\<close>

definition address_bytes :: "uint32_t \<Rightarrow> uint8_t list" where
  "address_bytes a = [ucast (drop_bit 16 a), ucast (drop_bit 8 a), ucast a]"

definition w25q128fv_read_flash_memory ::
  "status_codes \<Rightarrow> transport \<Rightarrow> uint32_t \<Rightarrow> uint8_t \<Rightarrow> uint32_t \<Rightarrow> world
     \<Rightarrow> uint8_t \<times> world" where
  "w25q128fv_read_flash_memory c t start_page page_bytes_offset size' w =
     (let w25q128fv_flash_memory_addr =
            start_page * of_nat W25Q128FV_PAGE_SIZE_IN_BYTES + ucast page_bytes_offset
      in if w25q128fv_flash_memory_addr + size'
              > of_nat W25Q128FV_FLASH_MEMORY_TOTAL_SIZE_IN_BYTES
         then (W25Q128FV_EC_ERR c, w)
         else
           let read_data_instruction =
                 W25Q128FV_READ_DATA_INSTRUCTION # address_bytes w25q128fv_flash_memory_addr;
               w1 = set_cs_pin_low w;
               (ret, w2) = HAL_SPI_Transmit t read_data_instruction w1;
               ret = HAL_ret_handler c ret
           in if ret \<noteq> W25Q128FV_EC_OK c then (ret, set_cs_pin_high w2)
              else
                let (ret, dst, w3) = HAL_SPI_Receive t (ucast size') w2;
                    w4 = set_cs_pin_high w3;
                    ret = HAL_ret_handler c ret
                in if ret \<noteq> W25Q128FV_EC_OK c then (ret, w4)
                   else (W25Q128FV_EC_OK c, w4))"

definition w25q128fv_fast_read_flash_memory ::
  "status_codes \<Rightarrow> transport \<Rightarrow> uint32_t \<Rightarrow> uint8_t \<Rightarrow> uint32_t \<Rightarrow> world
     \<Rightarrow> uint8_t \<times> world" where
  "w25q128fv_fast_read_flash_memory c t start_page page_bytes_offset size' w =
     (let w25q128fv_flash_memory_addr =
            start_page * of_nat W25Q128FV_PAGE_SIZE_IN_BYTES + ucast page_bytes_offset
      in if w25q128fv_flash_memory_addr + size'
              > of_nat W25Q128FV_FLASH_MEMORY_TOTAL_SIZE_IN_BYTES
         then (W25Q128FV_EC_ERR c, w)
         else
           let fast_read_instruction =
                 W25Q128FV_FAST_READ_INSTRUCTION
                   # address_bytes w25q128fv_flash_memory_addr @ [0x00];
               w1 = set_cs_pin_low w;
               (ret, w2) = HAL_SPI_Transmit t fast_read_instruction w1;
               ret = HAL_ret_handler c ret
           in if ret \<noteq> W25Q128FV_EC_OK c then (ret, set_cs_pin_high w2)
              else
                let (ret, dst, w3) = HAL_SPI_Receive t (ucast size') w2;
                    w4 = set_cs_pin_high w3;
                    ret = HAL_ret_handler c ret
                in if ret \<noteq> W25Q128FV_EC_OK c then (ret, w4)
                   else (W25Q128FV_EC_OK c, w4))"

section \<open>Erasing\<close>

definition w25q128fv_erase_sector ::
  "status_codes \<Rightarrow> transport \<Rightarrow> uint32_t \<Rightarrow> world \<Rightarrow> uint8_t \<times> world" where
  "w25q128fv_erase_sector c t sector_number w =
     (if sector_number > of_nat W25Q128FV_TOTAL_SECTORS_MINUS_ONE
      then (W25Q128FV_EC_ERR c, w)
      else
        let (ret, w1) = send_w25q128fv_write_enable_instruction c t w
        in if ret \<noteq> W25Q128FV_EC_OK c then (W25Q128FV_EC_ERR c, w1)
           else
             let w25q128fv_flash_memory_addr =
                   sector_number * of_nat W25Q128FV_SECTOR_SIZE_IN_BYTES;
                 sector_erase_instruction =
                   W25Q128FV_SECTOR_ERASE_INSTRUCTION
                     # address_bytes w25q128fv_flash_memory_addr;
                 w2 = set_cs_pin_low w1;
                 (ret, w3) = HAL_SPI_Transmit t sector_erase_instruction w2;
                 w4 = set_cs_pin_high w3;
                 ret = HAL_ret_handler c ret
             in if ret \<noteq> W25Q128FV_EC_OK c then (ret, w4)
                else
                  let w5 = HAL_Delay 400 w4;
                      (ret, w6) = send_w25q128fv_write_disable_instruction c t w5
                  in if ret \<noteq> W25Q128FV_EC_OK c then (W25Q128FV_EC_ERR c, w6)
                     else (W25Q128FV_EC_OK c, w6))"

definition w25q128fv_chip_erase ::
  "status_codes \<Rightarrow> transport \<Rightarrow> world \<Rightarrow> uint8_t \<times> world" where
  "w25q128fv_chip_erase c t w =
     (let (ret, w1) = send_w25q128fv_write_enable_instruction c t w
      in if ret \<noteq> W25Q128FV_EC_OK c then (W25Q128FV_EC_ERR c, w1)
         else
           let w2 = set_cs_pin_low w1;
               (ret, w3) = HAL_SPI_Transmit t [W25Q128FV_CHIP_ERASE_INSTRUCTION] w2;
               w4 = set_cs_pin_high w3;
               ret = HAL_ret_handler c ret
           in if ret \<noteq> W25Q128FV_EC_OK c then (ret, w4)
              else
                let w5 = HAL_Delay 200000 w4;
                    (ret, w6) = send_w25q128fv_write_disable_instruction c t w5
                in if ret \<noteq> W25Q128FV_EC_OK c then (W25Q128FV_EC_ERR c, w6)
                   else (W25Q128FV_EC_OK c, w6))"

section \<open>Writing: \<open>w25q128fv_write_flash_memory\<close>\<close>

text \<open>
  The local variables of \<open>w25q128fv_write_flash_memory\<close> that its loops update.
  \<open>page_program_instruction\<close> is the array of
  \<open>W25Q128FV_PAGE_PROGRAM_INSTRUCTION_MAX_SIZE_IN_BYTES\<close> bytes, and
  \<open>page_program_instruction_data\<close> points to its element 4.
\<close>

record write_locals =
  page_program_instruction :: "uint8_t list"
  currently_written_bytes :: uint32_t
  current_page_program_instruction_size :: uint16_t
  current_page_to_write :: uint32_t
  next_page_to_write :: uint32_t
  remaining_writable_bytes_in_current_page :: uint16_t
  current_w25q128fv_flash_memory_address :: uint32_t

text \<open>
  An access outside the array \<open>page_program_instruction\<close> is a fault of its own: a store
  past its last element, or a transmission whose \<open>Size\<close> makes the transport read past
  it.
\<close>

datatype fault = Buffer_overrun

text \<open>
  The four statements that copy one byte of \<open>src\<close> into the data field, at
  \<open>page_program_instruction_data[current_byte]\<close>. The source buffer is the memory
  behind the pointer \<open>src\<close>, read at an index.
\<close>

definition copy_byte :: "(nat \<Rightarrow> uint8_t) \<Rightarrow> nat \<Rightarrow> write_locals \<Rightarrow> write_locals" where
  "copy_byte src current_byte L =
     L\<lparr>page_program_instruction :=
         (page_program_instruction L)
           [4 + current_byte := src (unat (currently_written_bytes L))],
       currently_written_bytes := currently_written_bytes L + 1,
       current_page_program_instruction_size := current_page_program_instruction_size L + 1,
       current_w25q128fv_flash_memory_address := current_w25q128fv_flash_memory_address L + 1,
       remaining_writable_bytes_in_current_page :=
         remaining_writable_bytes_in_current_page L - 1\<rparr>"

text \<open>
  The inner \<open>for\<close> loop, over the \<open>uint8_t current_byte\<close>: it runs while
  \<open>current_page_to_write < next_page_to_write\<close> and leaves by \<open>break\<close> when all
  \<open>size\<close> bytes are copied.
\<close>

function populate_data_field ::
  "uint32_t \<Rightarrow> (nat \<Rightarrow> uint8_t) \<Rightarrow> uint8_t \<Rightarrow> write_locals \<Rightarrow> fault + write_locals" where
  "populate_data_field size' src current_byte L =
     (if current_page_to_write L < next_page_to_write L then
        if 4 + unat current_byte < W25Q128FV_PAGE_PROGRAM_INSTRUCTION_MAX_SIZE_IN_BYTES then
          let L1 = copy_byte src (unat current_byte) L
          in if remaining_writable_bytes_in_current_page L1 = 0 then
               populate_data_field size' src (current_byte + 1)
                 (L1\<lparr>current_page_to_write := current_page_to_write L1 + 1,
                     remaining_writable_bytes_in_current_page :=
                       of_nat W25Q128FV_PAGE_SIZE_IN_BYTES\<rparr>)
             else if currently_written_bytes L1 = size' then Inr L1
             else populate_data_field size' src (current_byte + 1) L1
        else Inl Buffer_overrun
      else Inr L)"
  by pat_completeness auto
termination
proof (relation "measure (\<lambda>(s, src, current_byte, L). 255 - unat current_byte)")
  show "wf (measure (\<lambda>(s, src, current_byte, L). 255 - unat current_byte))"
    by simp
next
  fix size' :: uint32_t and src :: "nat \<Rightarrow> uint8_t" and current_byte :: uint8_t
    and L L1 :: write_locals
  assume "4 + unat current_byte < W25Q128FV_PAGE_PROGRAM_INSTRUCTION_MAX_SIZE_IN_BYTES"
  then have lt: "unat current_byte < 255"
    by (simp add: W25Q128FV_PAGE_PROGRAM_INSTRUCTION_MAX_SIZE_IN_BYTES_def)
  then have "unat (current_byte + 1) = Suc (unat current_byte)"
    by (simp add: unat_word_ariths)
  with lt have dec: "255 - unat (current_byte + 1) < 255 - unat current_byte"
    by simp
  show "((size', src, current_byte + 1,
          L1\<lparr>current_page_to_write := current_page_to_write L1 + 1,
              remaining_writable_bytes_in_current_page :=
                of_nat W25Q128FV_PAGE_SIZE_IN_BYTES\<rparr>),
         size', src, current_byte, L)
        \<in> measure (\<lambda>(s, src, current_byte, L). 255 - unat current_byte)"
    using dec by simp
  show "((size', src, current_byte + 1, L1), size', src, current_byte, L)
        \<in> measure (\<lambda>(s, src, current_byte, L). 255 - unat current_byte)"
    using dec by simp
qed

declare populate_data_field.simps [simp del]

text \<open>
  Lines 379 to 409: the data field of one Page Program instruction. On a fresh page a
  single byte is copied; otherwise the inner loop runs, and \<open>next_page_to_write\<close>
  follows \<open>current_page_to_write\<close> when the page was closed.
\<close>

definition populate_instruction ::
  "uint32_t \<Rightarrow> (nat \<Rightarrow> uint8_t) \<Rightarrow> write_locals \<Rightarrow> fault + write_locals" where
  "populate_instruction size' src L =
     (let L1 = L\<lparr>current_page_program_instruction_size := 4\<rparr>
      in if remaining_writable_bytes_in_current_page L1 = of_nat W25Q128FV_PAGE_SIZE_IN_BYTES
         then Inr (copy_byte src 0 L1)
         else
           case populate_data_field size' src 0 L1 of
             Inl f \<Rightarrow> Inl f
           | Inr L2 \<Rightarrow>
               Inr (if current_page_to_write L2 = next_page_to_write L2
                    then L2\<lparr>next_page_to_write := next_page_to_write L2 + 1\<rparr>
                    else L2))"

text \<open>
  What the transport reads when it is handed the array \<open>pData\<close> and a \<open>Size\<close>: the
  elements \<open>0\<close> to \<open>Size - 1\<close>, so the frame on the bus has \<open>Size\<close> bytes whatever the
  length of the array is.
\<close>

definition array_bytes :: "uint8_t list \<Rightarrow> nat \<Rightarrow> uint8_t list" where
  "array_bytes pData Size = map (\<lambda>i. pData ! i) [0..<Size]"

text \<open>
  The outer \<open>for\<close> loop, which has no increment of its own. \<open>None\<close> stands for a loop
  that does not return. \<open>HAL_SPI_Transmit\<close> is handed the array and
  \<open>current_page_program_instruction_size\<close> as its \<open>Size\<close>; a \<open>Size\<close> beyond the
  array's length makes it read past the array, which is a \<open>Buffer_overrun\<close>.
\<close>

partial_function (option) write_loop ::
  "status_codes \<Rightarrow> transport \<Rightarrow> uint32_t \<Rightarrow> (nat \<Rightarrow> uint8_t) \<Rightarrow> uint32_t
     \<Rightarrow> write_locals \<Rightarrow> world \<Rightarrow> (fault + uint8_t \<times> world) option" where
  "write_loop c t size' src w25q128fv_flash_memory_addr_end_plus_one L w =
     (if current_w25q128fv_flash_memory_address L < w25q128fv_flash_memory_addr_end_plus_one
      then
        (case send_w25q128fv_write_enable_instruction c t w of (ret, w1) \<Rightarrow>
           if ret \<noteq> W25Q128FV_EC_OK c then Some (Inr (W25Q128FV_EC_ERR c, w1))
           else
             (case populate_instruction size' src
                     (L\<lparr>page_program_instruction :=
                          (page_program_instruction L)
                            [1 := ucast (drop_bit 16 (current_w25q128fv_flash_memory_address L)),
                             2 := ucast (drop_bit 8 (current_w25q128fv_flash_memory_address L)),
                             3 := ucast (current_w25q128fv_flash_memory_address L)]\<rparr>) of
                Inl f \<Rightarrow> Some (Inl f)
              | Inr L1 \<Rightarrow>
                 if length (page_program_instruction L1)
                      < unat (current_page_program_instruction_size L1)
                 then Some (Inl Buffer_overrun)
                 else
                   (case HAL_SPI_Transmit t
                           (array_bytes (page_program_instruction L1)
                              (unat (current_page_program_instruction_size L1)))
                           (set_cs_pin_low w1) of (ret, w2) \<Rightarrow>
                      if HAL_ret_handler c ret \<noteq> W25Q128FV_EC_OK c
                      then Some (Inr (HAL_ret_handler c ret, set_cs_pin_high w2))
                      else
                        (case send_w25q128fv_write_disable_instruction c t
                                (HAL_Delay 3 (set_cs_pin_high w2)) of (ret, w3) \<Rightarrow>
                           if ret \<noteq> W25Q128FV_EC_OK c
                           then Some (Inr (W25Q128FV_EC_ERR c, w3))
                           else write_loop c t size' src
                                  w25q128fv_flash_memory_addr_end_plus_one L1 w3))))
      else Some (Inr (W25Q128FV_EC_OK c, w)))"

declare write_loop.simps [code]

text \<open>
  The bytes of the array that no statement has stored yet are written as 0 here. The
  driver transmits the first \<open>current_page_program_instruction_size\<close> bytes, all of
  them stored before, and the result of the loop is the same for any other content
  (lemma \<open>write_loop_initial_array\<close>).
\<close>

definition w25q128fv_write_flash_memory ::
  "status_codes \<Rightarrow> transport \<Rightarrow> uint32_t \<Rightarrow> uint8_t \<Rightarrow> uint32_t \<Rightarrow> (nat \<Rightarrow> uint8_t)
     \<Rightarrow> world \<Rightarrow> (fault + uint8_t \<times> world) option" where
  "w25q128fv_write_flash_memory c t start_page page_bytes_offset size' src w =
     (let w25q128fv_flash_memory_addr_start =
            start_page * of_nat W25Q128FV_PAGE_SIZE_IN_BYTES + ucast page_bytes_offset;
          w25q128fv_flash_memory_addr_end_plus_one =
            w25q128fv_flash_memory_addr_start + size'
      in if w25q128fv_flash_memory_addr_end_plus_one
              > of_nat W25Q128FV_FLASH_MEMORY_TOTAL_SIZE_IN_BYTES
         then Some (Inr (W25Q128FV_EC_ERR c, w))
         else
           let w25q128fv_flash_memory_page_start =
                 start_page + ucast page_bytes_offset div of_nat W25Q128FV_PAGE_SIZE_IN_BYTES;
               remaining :: uint16_t =
                 ucast (of_nat W25Q128FV_PAGE_SIZE_IN_BYTES
                          - (w25q128fv_flash_memory_addr_start
                               - w25q128fv_flash_memory_page_start
                                   * of_nat W25Q128FV_PAGE_SIZE_IN_BYTES) :: uint32_t)
           in write_loop c t size' src w25q128fv_flash_memory_addr_end_plus_one
                \<lparr>page_program_instruction =
                   (replicate W25Q128FV_PAGE_PROGRAM_INSTRUCTION_MAX_SIZE_IN_BYTES 0)
                     [0 := W25Q128FV_PAGE_PROGRAM_INSTRUCTION],
                 currently_written_bytes = 0,
                 current_page_program_instruction_size = 4,
                 current_page_to_write = w25q128fv_flash_memory_page_start,
                 next_page_to_write = w25q128fv_flash_memory_page_start + 1,
                 remaining_writable_bytes_in_current_page =
                   (if remaining = 0 then of_nat W25Q128FV_PAGE_SIZE_IN_BYTES else remaining),
                 current_w25q128fv_flash_memory_address = w25q128fv_flash_memory_addr_start\<rparr>
                w)"

section \<open>Observations on a trace\<close>

text \<open>
  The Page Program instructions of a trace, each as the 24-bit address of its three
  address bytes (most significant first) and its payload.
\<close>

fun page_programs :: "event list \<Rightarrow> (nat \<times> uint8_t list) list" where
  "page_programs [] = []"
| "page_programs (SPI_Transmit (opc # a2 # a1 # a0 # d) # es) =
     (if opc = W25Q128FV_PAGE_PROGRAM_INSTRUCTION
      then (unat a2 * 65536 + unat a1 * 256 + unat a0, d) # page_programs es
      else page_programs es)"
| "page_programs (e # es) = page_programs es"

text \<open>
  \<open>tiles a b ps\<close>: the address ranges of \<open>ps\<close>, in order, start at \<open>a\<close>, each begins
  where the one before ends, none is empty, and the last ends at \<open>b\<close>.
\<close>

fun tiles :: "nat \<Rightarrow> nat \<Rightarrow> (nat \<times> uint8_t list) list \<Rightarrow> bool" where
  "tiles a b [] = (a = b)"
| "tiles a b ((x, d) # ps) = (x = a \<and> d \<noteq> [] \<and> tiles (a + length d) b ps)"

text \<open>
  \<open>chip_select asserted es\<close>: starting with the line asserted or not, every \<open>CS_low\<close>
  of \<open>es\<close> finds the line released, every \<open>CS_high\<close> finds it asserted, every SPI
  exchange happens while it is asserted, and at the end the line is released.
\<close>

fun chip_select :: "bool \<Rightarrow> event list \<Rightarrow> bool" where
  "chip_select asserted [] = (\<not> asserted)"
| "chip_select asserted (CS_low # es) = (\<not> asserted \<and> chip_select True es)"
| "chip_select asserted (CS_high # es) = (asserted \<and> chip_select False es)"
| "chip_select asserted (SPI_Transmit d # es) = (asserted \<and> chip_select asserted es)"
| "chip_select asserted (SPI_Receive n # es) = (asserted \<and> chip_select asserted es)"
| "chip_select asserted (Delay ms # es) = chip_select asserted es"

fun is_spi :: "event \<Rightarrow> bool" where
  "is_spi (SPI_Transmit d) = True"
| "is_spi (SPI_Receive n) = True"
| "is_spi e = False"

section \<open>The splitting rule of the write loop, stated on its own\<close>

text \<open>
  The number of bytes one Page Program instruction carries when the cursor is at address
  \<open>a\<close> and \<open>n\<close> bytes are left: a single byte at the start of a page, otherwise the
  rest of the page or the rest of the request, whichever is less.
\<close>

definition write_chunk :: "nat \<Rightarrow> nat \<Rightarrow> nat" where
  "write_chunk a n =
     (if a mod W25Q128FV_PAGE_SIZE_IN_BYTES = 0 then 1
      else min (W25Q128FV_PAGE_SIZE_IN_BYTES - a mod W25Q128FV_PAGE_SIZE_IN_BYTES) n)"

function split_write :: "nat \<Rightarrow> nat \<Rightarrow> (nat \<times> nat) list" where
  "split_write a n =
     (if n = 0 then []
      else (a, write_chunk a n) # split_write (a + write_chunk a n) (n - write_chunk a n))"
  by pat_completeness auto
termination
proof (relation "measure (\<lambda>(a, n). n)")
  show "wf (measure (\<lambda>(a, n). n))"
    by simp
next
  fix a n :: nat
  assume "n \<noteq> 0"
  then have "0 < write_chunk a n"
    by (simp add: write_chunk_def W25Q128FV_PAGE_SIZE_IN_BYTES_def)
  with \<open>n \<noteq> 0\<close> show "((a + write_chunk a n, n - write_chunk a n), a, n) \<in> measure (\<lambda>(a, n). n)"
    by simp
qed

declare split_write.simps [simp del]

text \<open>
  The bus exchanges of one Page Program step, and the sequence the write loop makes of
  them for a list of chunks \<open>(address, length)\<close>: it stops at the first SPI call whose
  mapped result is not \<open>W25Q128FV_EC_OK\<close>. \<open>k\<close> numbers the SPI calls and \<open>off\<close>
  is the index into \<open>src\<close>.
\<close>

definition spi_result :: "status_codes \<Rightarrow> transport \<Rightarrow> nat \<Rightarrow> uint8_t" where
  "spi_result c t k = HAL_ret_handler c (hal_value (spi_status t k))"

definition write_enable_events :: "event list" where
  "write_enable_events = [CS_low, SPI_Transmit [W25Q128FV_WRITE_ENABLE_INSTRUCTION], CS_high]"

definition write_disable_events :: "event list" where
  "write_disable_events =
     [CS_low, SPI_Transmit [W25Q128FV_WRITE_DISABLE_INSTRUCTION], CS_high]"

definition page_program_events :: "nat \<Rightarrow> uint8_t list \<Rightarrow> event list" where
  "page_program_events a d =
     [CS_low,
      SPI_Transmit (W25Q128FV_PAGE_PROGRAM_INSTRUCTION # address_bytes (of_nat a) @ d),
      CS_high]"

fun run_chunks ::
  "status_codes \<Rightarrow> transport \<Rightarrow> (nat \<Rightarrow> uint8_t) \<Rightarrow> nat \<Rightarrow> nat \<Rightarrow> (nat \<times> nat) list
     \<Rightarrow> uint8_t \<times> event list" where
  "run_chunks c t src k off [] = (W25Q128FV_EC_OK c, [])"
| "run_chunks c t src k off ((a, n) # chs) =
     (if spi_result c t k \<noteq> W25Q128FV_EC_OK c
      then (W25Q128FV_EC_ERR c, write_enable_events)
      else if spi_result c t (k + 1) \<noteq> W25Q128FV_EC_OK c
      then (spi_result c t (k + 1),
            write_enable_events @ page_program_events a (map src [off..<off + n]))
      else if spi_result c t (k + 2) \<noteq> W25Q128FV_EC_OK c
      then (W25Q128FV_EC_ERR c,
            write_enable_events @ page_program_events a (map src [off..<off + n])
              @ Delay 3 # write_disable_events)
      else
        (case run_chunks c t src (k + 3) (off + n) chs of
           (r, es) \<Rightarrow>
             (r, write_enable_events @ page_program_events a (map src [off..<off + n])
                   @ Delay 3 # write_disable_events @ es)))"

section \<open>Auxiliary notions for the proofs\<close>

text \<open>
  The invariant of the outer loop of \<open>w25q128fv_write_flash_memory\<close>, for the request
  size \<open>size'\<close> and the end address \<open>e\<close>.
\<close>

definition loop_inv :: "uint32_t \<Rightarrow> uint32_t \<Rightarrow> write_locals \<Rightarrow> bool" where
  "loop_inv size' e L \<longleftrightarrow>
     length (page_program_instruction L) = W25Q128FV_PAGE_PROGRAM_INSTRUCTION_MAX_SIZE_IN_BYTES \<and>
     page_program_instruction L ! 0 = W25Q128FV_PAGE_PROGRAM_INSTRUCTION \<and>
     unat (current_w25q128fv_flash_memory_address L) \<le> unat e \<and>
     unat e \<le> W25Q128FV_FLASH_MEMORY_TOTAL_SIZE_IN_BYTES \<and>
     unat (currently_written_bytes L)
       + (unat e - unat (current_w25q128fv_flash_memory_address L)) = unat size' \<and>
     unat (remaining_writable_bytes_in_current_page L)
       = W25Q128FV_PAGE_SIZE_IN_BYTES
           - unat (current_w25q128fv_flash_memory_address L) mod W25Q128FV_PAGE_SIZE_IN_BYTES \<and>
     next_page_to_write L = current_page_to_write L + 1 \<and>
     unat (current_page_to_write L)
       + (unat e - unat (current_w25q128fv_flash_memory_address L)) + 1 < 2 ^ 32"

text \<open>The world after the events \<open>es\<close> have been appended to its trace.\<close>

definition extend :: "world \<Rightarrow> event list \<Rightarrow> world" where
  "extend w es = w\<lparr>trace := trace w @ es, spi_calls := spi_calls w + length (filter is_spi es)\<rparr>"

text \<open>
  A write request whose resolved range lies within the device, with the addresses read
  as natural numbers, and its resolved start address.
\<close>

definition valid_request :: "uint32_t \<Rightarrow> uint8_t \<Rightarrow> uint32_t \<Rightarrow> bool" where
  "valid_request start_page page_bytes_offset size' \<longleftrightarrow>
     unat start_page * W25Q128FV_PAGE_SIZE_IN_BYTES + unat page_bytes_offset + unat size'
       \<le> W25Q128FV_FLASH_MEMORY_TOTAL_SIZE_IN_BYTES"

definition start_address :: "uint32_t \<Rightarrow> uint8_t \<Rightarrow> nat" where
  "start_address start_page page_bytes_offset =
     unat start_page * W25Q128FV_PAGE_SIZE_IN_BYTES + unat page_bytes_offset"

text \<open>Concrete parameters for the examples: status codes, a transport on which every call
  succeeds, and a world in which nothing has happened yet.\<close>

definition example_codes :: status_codes where
  "example_codes = \<lparr>W25Q128FV_EC_OK = 0, W25Q128FV_EC_NR = 2, W25Q128FV_EC_ERR = 4\<rparr>"

definition always_ok :: transport where
  "always_ok = \<lparr>spi_status = (\<lambda>k. HAL_OK), spi_rx = (\<lambda>k i. 0)\<rparr>"

definition initial_world :: world where
  "initial_world = \<lparr>trace = [], spi_calls = 0\<rparr>"

definition example_src :: "nat \<Rightarrow> uint8_t" where
  "example_src i = of_nat i"

definition always_busy :: transport where
  "always_busy = \<lparr>spi_status = (\<lambda>k. HAL_BUSY), spi_rx = (\<lambda>k i. 0)\<rparr>"

definition fails_at :: "nat \<Rightarrow> HAL_StatusTypeDef \<Rightarrow> transport" where
  "fails_at n h = \<lparr>spi_status = (\<lambda>k. if k = n then h else HAL_OK), spi_rx = (\<lambda>k i. 0)\<rparr>"

definition jedec_transport :: transport where
  "jedec_transport = \<lparr>spi_status = (\<lambda>k. HAL_OK), spi_rx = (\<lambda>k i. [0xEF, 0x40, 0x18] ! i)\<rparr>"

definition empty_cell :: id_cell where
  "empty_cell = \<lparr>content = 0, stores = 0\<rparr>"

text \<open>
  The address and length of each Page Program instruction of a trace, and the status and
  the trace of a write that returned.
\<close>

definition program_ranges :: "event list \<Rightarrow> (nat \<times> nat) list" where
  "program_ranges es = map (\<lambda>(a, d). (a, length d)) (page_programs es)"

fun result_status :: "(fault + uint8_t \<times> world) option \<Rightarrow> uint8_t option" where
  "result_status (Some (Inr (r, w))) = Some r"
| "result_status x = None"

fun result_trace :: "(fault + uint8_t \<times> world) option \<Rightarrow> event list" where
  "result_trace (Some (Inr (r, w))) = trace w"
| "result_trace x = []"


section \<open>Machine arithmetic\<close>

lemma or_plus_step:
  fixes x :: uint32_t and b :: uint8_t
  shows "push_bit 8 x OR ucast b = push_bit 8 x + ucast b"
  by (rule disjunctive_add [symmetric]) (auto simp add: bit_simps dest: bit_imp_le_length)

lemma pack_id_word:
  fixes b0 b1 b2 :: uint8_t
  shows "(push_bit 16 (ucast b0) OR push_bit 8 (ucast b1) OR ucast b2 :: uint32_t)
         = ucast b0 * 65536 + ucast b1 * 256 + ucast b2"
proof -
  have "(push_bit 16 (ucast b0) OR push_bit 8 (ucast b1) OR ucast b2 :: uint32_t)
        = push_bit 8 (push_bit 8 (ucast b0) OR ucast b1) OR ucast b2"
    by (simp add: push_bit_or push_bit_push_bit or.assoc)
  also have "\<dots> = push_bit 8 (push_bit 8 (ucast b0) + ucast b1) + ucast b2"
    by (simp only: or_plus_step)
  finally show ?thesis
    by (simp add: push_bit_eq_mult algebra_simps)
qed

lemma pack_id:
  fixes b0 b1 b2 :: uint8_t
  shows "unat (push_bit 16 (ucast b0) OR push_bit 8 (ucast b1) OR ucast b2 :: uint32_t)
         = unat b0 * 65536 + unat b1 * 256 + unat b2"
proof -
  have b: "unat b0 < 256" "unat b1 < 256" "unat b2 < 256"
    using unsigned_less [of b0, where 'a = nat] unsigned_less [of b1, where 'a = nat]
      unsigned_less [of b2, where 'a = nat] by simp_all
  then show ?thesis
    by (simp add: pack_id_word unat_word_ariths unsigned_ucast_eq take_bit_eq_mod)
qed

lemma start_addr_unat:
  fixes start_page :: uint32_t and page_bytes_offset :: uint8_t
  assumes "unat start_page * 256 + unat page_bytes_offset < 2 ^ 32"
  shows "unat (start_page * 256 + ucast page_bytes_offset :: uint32_t)
         = unat start_page * 256 + unat page_bytes_offset"
proof -
  have "unat page_bytes_offset < 256"
    using unsigned_less [of page_bytes_offset, where 'a = nat] by simp
  with assms show ?thesis
    by (simp add: unat_word_ariths unsigned_ucast_eq take_bit_eq_mod)
qed

section \<open>The inner loop\<close>

lemma unat_of_nat8: "j < 256 \<Longrightarrow> unat (of_nat j :: uint8_t) = j"
  by (simp add: unat_of_nat)

lemma word_succ_eq_iff:
  fixes x y :: uint32_t
  assumes "unat x < unat y"
  shows "x + 1 = y \<longleftrightarrow> Suc (unat x) = unat y"
proof -
  have "unat y < 2 ^ 32"
    using unsigned_less [of y, where 'a = nat] by simp
  with assms have "unat (x + 1) = Suc (unat x)"
    by (simp add: unat_word_ariths)
  then show ?thesis
    by (simp add: word_unat_eq_iff)
qed

lemma rem_dec:
  fixes x :: uint16_t
  assumes "unat x = Suc r'"
  shows "unat (x - 1) = r'" and "x - 1 = 0 \<longleftrightarrow> r' = 0" and "x = 1 \<longleftrightarrow> r' = 0"
proof -
  have "x \<noteq> 0"
    using assms by auto
  then show u: "unat (x - 1) = r'"
    using assms by (simp add: unat_minus_one)
  then show "x - 1 = 0 \<longleftrightarrow> r' = 0"
    by (metis unat_eq_zero)
  then show "x = 1 \<longleftrightarrow> r' = 0"
    by simp
qed

lemma word_succ_unat:
  fixes x y :: uint32_t
  assumes "unat x < unat y"
  shows "unat (x + 1) = Suc (unat x)"
proof -
  have "unat y < 2 ^ 32"
    using unsigned_less [of y, where 'a = nat] by simp
  with assms show ?thesis
    by (simp add: unat_word_ariths)
qed

lemma buf_step:
  assumes "n < length xs"
  shows "take (Suc n) (xs[n := src wr]) @ map src [Suc wr..<Suc wr + k']
           @ drop (Suc n + k') (xs[n := src wr])
         = take n xs @ map src [wr..<wr + Suc k'] @ drop (n + Suc k') xs"
proof -
  have "take (Suc n) (xs[n := src wr]) = take n xs @ [src wr]"
    using assms by (simp add: take_Suc_conv_app_nth)
  moreover have "drop (Suc n + k') (xs[n := src wr]) = drop (n + Suc k') xs"
    by simp
  moreover have "[wr..<wr + Suc k'] = wr # [Suc wr..<Suc wr + k']"
    by (simp add: upt_conv_Cons)
  ultimately show ?thesis
    by simp
qed

lemma populate_data_field_run:
  assumes "length (page_program_instruction L) = 259"
    and "next_page_to_write L = current_page_to_write L + 1"
    and "current_page_to_write L < next_page_to_write L"
    and "unat (remaining_writable_bytes_in_current_page L) = r"
    and "0 < r" and "j + r \<le> 255"
    and "unat (currently_written_bytes L) = wr" and "wr < unat size'"
    and "k = min r (unat size' - wr)"
  shows "\<exists>L'. populate_data_field size' src (of_nat j) L = Inr L'
      \<and> page_program_instruction L' =
          take (4 + j) (page_program_instruction L) @ map src [wr..<wr + k]
            @ drop (4 + j + k) (page_program_instruction L)
      \<and> currently_written_bytes L' = currently_written_bytes L + of_nat k
      \<and> current_page_program_instruction_size L' =
          current_page_program_instruction_size L + of_nat k
      \<and> current_w25q128fv_flash_memory_address L' =
          current_w25q128fv_flash_memory_address L + of_nat k
      \<and> remaining_writable_bytes_in_current_page L' =
          (if k = r then 256 else remaining_writable_bytes_in_current_page L - of_nat k)
      \<and> current_page_to_write L' =
          (if k = r then current_page_to_write L + 1 else current_page_to_write L)
      \<and> next_page_to_write L' = next_page_to_write L"
  using assms
proof (induction r arbitrary: j L wr k)
  case 0
  then show ?case by simp
next
  case (Suc r')
  let ?L1 = "copy_byte src j L"
  have j8: "unat (of_nat j :: uint8_t) = j"
    using Suc.prems by (simp add: unat_of_nat8)
  have inb: "4 + j < W25Q128FV_PAGE_PROGRAM_INSTRUCTION_MAX_SIZE_IN_BYTES"
    using Suc.prems by (simp add: W25Q128FV_PAGE_PROGRAM_INSTRUCTION_MAX_SIZE_IN_BYTES_def)
  have upd: "(page_program_instruction L)[4 + j := src wr]
        = take (4 + j) (page_program_instruction L) @ map src [wr..<wr + 1]
            @ drop (4 + j + 1) (page_program_instruction L)"
    using Suc.prems by (simp add: upd_conv_take_nth_drop)
  have rem0: "remaining_writable_bytes_in_current_page ?L1 = 0 \<longleftrightarrow> r' = 0"
    using Suc.prems rem_dec [of "remaining_writable_bytes_in_current_page L" r'] by (simp add: copy_byte_def)
  have wr1: "currently_written_bytes ?L1 = size' \<longleftrightarrow> Suc wr = unat size'"
    using Suc.prems by (simp add: copy_byte_def word_succ_eq_iff)
  have unfold1: "populate_data_field size' src (of_nat j) L =
      (if r' = 0 then
         populate_data_field size' src (of_nat (Suc j))
           (?L1\<lparr>current_page_to_write := current_page_to_write ?L1 + 1,
                remaining_writable_bytes_in_current_page :=
                  of_nat W25Q128FV_PAGE_SIZE_IN_BYTES\<rparr>)
       else if Suc wr = unat size' then Inr ?L1
       else populate_data_field size' src (of_nat (Suc j)) ?L1)"
    using Suc.prems(3) inb rem0 wr1
    by (subst populate_data_field.simps) (simp add: j8 Let_def add.commute)
  show ?case
  proof (cases "r' = 0")
    case True
    let ?L2 = "?L1\<lparr>current_page_to_write := current_page_to_write ?L1 + 1,
                remaining_writable_bytes_in_current_page :=
                  of_nat W25Q128FV_PAGE_SIZE_IN_BYTES\<rparr>"
    have "\<not> current_page_to_write ?L2 < next_page_to_write ?L2"
      using Suc.prems by (simp add: copy_byte_def)
    then have "populate_data_field size' src (of_nat (Suc j)) ?L2 = Inr ?L2"
      by (subst populate_data_field.simps) simp
    moreover have "k = 1"
      using Suc.prems True by simp
    ultimately show ?thesis
      using unfold1 True upd Suc.prems
      by (simp add: copy_byte_def W25Q128FV_PAGE_SIZE_IN_BYTES_def)
  next
    case False
    show ?thesis
    proof (cases "Suc wr = unat size'")
      case True
      then have "k = 1"
        using Suc.prems False by simp
      then show ?thesis
        using unfold1 True False upd Suc.prems
        by (simp add: copy_byte_def)
    next
      case wr: False
      define k' where "k' = min r' (unat size' - Suc wr)"
      have k: "k = Suc k'"
        using Suc.prems(8,9) wr unfolding k'_def by arith
      have r1: "unat (remaining_writable_bytes_in_current_page ?L1) = r'"
        using Suc.prems rem_dec [of "remaining_writable_bytes_in_current_page L" r'] by (simp add: copy_byte_def)
      have w1: "unat (currently_written_bytes ?L1) = Suc wr"
        using Suc.prems word_succ_unat [of "currently_written_bytes L" size'] by (simp add: copy_byte_def)
      obtain L' where L': "populate_data_field size' src (of_nat (Suc j)) ?L1 = Inr L'"
        "page_program_instruction L' =
          take (4 + Suc j) (page_program_instruction ?L1) @ map src [Suc wr..<Suc wr + k']
            @ drop (4 + Suc j + k') (page_program_instruction ?L1)"
        "currently_written_bytes L' = currently_written_bytes ?L1 + of_nat k'"
        "current_page_program_instruction_size L' =
          current_page_program_instruction_size ?L1 + of_nat k'"
        "current_w25q128fv_flash_memory_address L' =
          current_w25q128fv_flash_memory_address ?L1 + of_nat k'"
        "remaining_writable_bytes_in_current_page L' =
          (if k' = r' then 256 else remaining_writable_bytes_in_current_page ?L1 - of_nat k')"
        "current_page_to_write L' =
          (if k' = r' then current_page_to_write ?L1 + 1 else current_page_to_write ?L1)"
        "next_page_to_write L' = next_page_to_write ?L1"
        using Suc.IH [of ?L1 "Suc j" "Suc wr" k'] Suc.prems False wr r1 w1
        by (auto simp add: k'_def copy_byte_def)
      have p1: "page_program_instruction ?L1 = (page_program_instruction L)[4 + j := src wr]"
        using Suc.prems(7) by (simp add: copy_byte_def)
      have inb': "4 + j < length (page_program_instruction L)"
        using Suc.prems(1,6) by simp
      have "page_program_instruction L' =
          take (Suc (4 + j)) ((page_program_instruction L)[4 + j := src wr])
            @ map src [Suc wr..<Suc wr + k']
            @ drop (Suc (4 + j) + k') ((page_program_instruction L)[4 + j := src wr])"
        using L'(2) unfolding p1 by (simp only: add_Suc_right)
      also have "\<dots> = take (4 + j) (page_program_instruction L) @ map src [wr..<wr + Suc k']
            @ drop (4 + j + Suc k') (page_program_instruction L)"
        using inb' by (rule buf_step)
      finally have buf: "page_program_instruction L' =
          take (4 + j) (page_program_instruction L) @ map src [wr..<wr + k]
            @ drop (4 + j + k) (page_program_instruction L)"
        unfolding k .
      show ?thesis
      proof (intro exI [of _ L'] conjI)
        show "populate_data_field size' src (of_nat j) L = Inr L'"
          using unfold1 False wr L'(1) by simp
        show "page_program_instruction L' =
          take (4 + j) (page_program_instruction L) @ map src [wr..<wr + k]
            @ drop (4 + j + k) (page_program_instruction L)"
          by (rule buf)
        show "currently_written_bytes L' = currently_written_bytes L + of_nat k"
          using L'(3) by (simp add: copy_byte_def k)
        show "current_page_program_instruction_size L' =
          current_page_program_instruction_size L + of_nat k"
          using L'(4) by (simp add: copy_byte_def k)
        show "current_w25q128fv_flash_memory_address L' =
          current_w25q128fv_flash_memory_address L + of_nat k"
          using L'(5) by (simp add: copy_byte_def k)
        show "remaining_writable_bytes_in_current_page L' =
          (if k = Suc r' then 256 else remaining_writable_bytes_in_current_page L - of_nat k)"
          using L'(6) by (simp add: copy_byte_def k)
        show "current_page_to_write L' =
          (if k = Suc r' then current_page_to_write L + 1 else current_page_to_write L)"
          using L'(7) by (simp add: copy_byte_def k)
        show "next_page_to_write L' = next_page_to_write L"
          using L'(8) by (simp add: copy_byte_def)
      qed
    qed
  qed
qed

section \<open>One pass of the outer loop\<close>

lemmas driver_consts = W25Q128FV_PAGE_PROGRAM_INSTRUCTION_MAX_SIZE_IN_BYTES_def
  W25Q128FV_FLASH_MEMORY_TOTAL_SIZE_IN_BYTES_def W25Q128FV_PAGE_SIZE_IN_BYTES_def

lemma unat_add_small:
  fixes x :: uint32_t
  assumes "unat x + k < 2 ^ 32"
  shows "unat (x + of_nat k) = unat x + k"
  using assms by (simp add: unat_word_ariths unat_of_nat)

lemma unat_add_small16:
  fixes x :: uint16_t
  assumes "unat x + k < 2 ^ 16"
  shows "unat (x + of_nat k) = unat x + k"
  using assms by (simp add: unat_word_ariths unat_of_nat)

lemma unat_sub_small16:
  fixes x :: uint16_t
  assumes "k \<le> unat x"
  shows "unat (x - of_nat k) = unat x - k"
proof -
  have "unat x < 2 ^ 16"
    using unsigned_less [of x, where 'a = nat] by simp
  with assms have "unat (of_nat k :: uint16_t) = k"
    by (simp add: unat_of_nat)
  with assms show ?thesis
    by (simp add: unat_sub word_le_nat_alt)
qed

lemma mod_page_step:
  fixes a k :: nat
  assumes "0 < k" and "k \<le> 256 - a mod 256"
  shows "256 - (a + k) mod 256 = (if k = 256 - a mod 256 then 256 else 256 - a mod 256 - k)"
proof -
  have lt: "a mod 256 < 256"
    by simp
  have "(a + k) mod 256 = (a mod 256 + k) mod 256"
    by (simp add: mod_add_left_eq)
  also have "\<dots> = (if k = 256 - a mod 256 then 0 else a mod 256 + k)"
    using assms lt by auto
  finally show ?thesis
    using assms lt by auto
qed

lemma take4_header:
  assumes "4 \<le> length xs"
  shows "take 4 (xs[1 := a, 2 := b, 3 := c]) = [xs ! 0, a, b, c]"
proof -
  obtain x0 t0 where 0: "xs = x0 # t0"
    using assms by (cases xs) auto
  obtain x1 t1 where 1: "t0 = x1 # t1"
    using assms 0 by (cases t0) auto
  obtain x2 t2 where 2: "t1 = x2 # t2"
    using assms 0 1 by (cases t1) auto
  obtain x3 t3 where 3: "t2 = x3 # t3"
    using assms 0 1 2 by (cases t2) auto
  show ?thesis
    by (simp add: 0 1 2 3 numeral_eq_Suc)
qed

lemma word_lt_succ:
  fixes x :: uint32_t
  assumes "unat x + 1 < 2 ^ 32"
  shows "x < x + 1" and "x \<noteq> x + 1"
proof -
  have "unat (x + 1) = unat x + 1"
    using assms by (simp add: unat_word_ariths)
  then show "x < x + 1"
    by (simp add: word_less_nat_alt)
  then show "x \<noteq> x + 1"
    by simp
qed

lemma populate_instruction_step:
  assumes inv: "loop_inv size' e L"
    and lt: "current_w25q128fv_flash_memory_address L < e"
    and k: "k = write_chunk (unat (current_w25q128fv_flash_memory_address L))
                  (unat e - unat (current_w25q128fv_flash_memory_address L))"
    and hdr: "H = (page_program_instruction L)
                [1 := ucast (drop_bit 16 (current_w25q128fv_flash_memory_address L)),
                 2 := ucast (drop_bit 8 (current_w25q128fv_flash_memory_address L)),
                 3 := ucast (current_w25q128fv_flash_memory_address L)]"
  shows "\<exists>L'. populate_instruction size' src (L\<lparr>page_program_instruction := H\<rparr>) = Inr L'
      \<and> loop_inv size' e L'
      \<and> unat (current_w25q128fv_flash_memory_address L')
          = unat (current_w25q128fv_flash_memory_address L) + k
      \<and> unat (currently_written_bytes L') = unat (currently_written_bytes L) + k
      \<and> unat (current_page_program_instruction_size L') = 4 + k
      \<and> unat (current_page_program_instruction_size L')
          \<le> length (page_program_instruction L')
      \<and> take (unat (current_page_program_instruction_size L')) (page_program_instruction L')
          = W25Q128FV_PAGE_PROGRAM_INSTRUCTION
              # address_bytes (current_w25q128fv_flash_memory_address L)
              @ map src [unat (currently_written_bytes L)..<unat (currently_written_bytes L) + k]"
proof -
  define a where "a = unat (current_w25q128fv_flash_memory_address L)"
  define n where "n = unat e - a"
  define wr where "wr = unat (currently_written_bytes L)"
  define r where "r = unat (remaining_writable_bytes_in_current_page L)"
  have facts: "length (page_program_instruction L) = 259"
    "page_program_instruction L ! 0 = W25Q128FV_PAGE_PROGRAM_INSTRUCTION"
    "a < unat e" "unat e \<le> 16731136" "wr + n = unat size'" "r = 256 - a mod 256"
    "next_page_to_write L = current_page_to_write L + 1"
    "unat (current_page_to_write L) + n + 1 < 2 ^ 32" "0 < n"
    using inv lt by (simp_all add: loop_inv_def driver_consts a_def n_def wr_def r_def word_less_nat_alt)
  have r_bounds: "0 < r" "r \<le> 256"
    using facts(6) by simp_all
  have lenH: "length H = 259"
    using facts(1) hdr by simp
  have takeH: "take 4 H = W25Q128FV_PAGE_PROGRAM_INSTRUCTION
                  # address_bytes (current_w25q128fv_flash_memory_address L)"
    using take4_header [of "page_program_instruction L"] facts(1,2)
    by (simp add: hdr address_bytes_def)
  have H0: "H ! 0 = W25Q128FV_PAGE_PROGRAM_INSTRUCTION"
    using facts(1,2) hdr by simp
  have page_lt: "current_page_to_write L < current_page_to_write L + 1"
    and page_ne: "current_page_to_write L \<noteq> current_page_to_write L + 1"
    using word_lt_succ [of "current_page_to_write L"] facts(8) by simp_all
  have k_def': "k = (if a mod 256 = 0 then 1 else min r n)"
    using k facts(6) by (simp add: write_chunk_def driver_consts a_def n_def)
  have k_bounds: "0 < k" "k \<le> n" "k \<le> r" "k \<le> 255"
    using k_def' facts(9,6) r_bounds by (auto split: if_splits)
  have a_k: "unat (current_w25q128fv_flash_memory_address L + of_nat k) = a + k"
    using unat_add_small [of "current_w25q128fv_flash_memory_address L" k] facts(3,4) k_bounds
    by (simp add: a_def n_def)
  have w_k: "unat (currently_written_bytes L + of_nat k) = wr + k"
    using unat_add_small [of "currently_written_bytes L" k] facts(5) k_bounds
      unsigned_less [of size', where 'a = nat]
    by (simp add: wr_def)
  have s_k: "unat (4 + of_nat k :: uint16_t) = 4 + k"
    using unat_add_small16 [of 4 k] k_bounds by simp
  let ?L0 = "L\<lparr>page_program_instruction := H\<rparr>"
  let ?L1 = "?L0\<lparr>current_page_program_instruction_size := 4\<rparr>"
  have rem_eq: "remaining_writable_bytes_in_current_page L = 256 \<longleftrightarrow> a mod 256 = 0"
    using facts(6) by (auto simp add: word_unat_eq_iff r_def)
  have "\<exists>L'. populate_instruction size' src ?L0 = Inr L'
      \<and> page_program_instruction L' = take 4 H @ map src [wr..<wr + k] @ drop (4 + k) H
      \<and> currently_written_bytes L' = currently_written_bytes L + of_nat k
      \<and> current_page_program_instruction_size L' = 4 + of_nat k
      \<and> current_w25q128fv_flash_memory_address L'
          = current_w25q128fv_flash_memory_address L + of_nat k
      \<and> unat (remaining_writable_bytes_in_current_page L') = (if k = r then 256 else r - k)
      \<and> current_page_to_write L'
          = (if k = r then current_page_to_write L + 1 else current_page_to_write L)
      \<and> next_page_to_write L' = current_page_to_write L' + 1"
  proof (cases "a mod 256 = 0")
    case True
    then have k1: "k = 1" and r256: "r = 256"
      using k_def' facts(6) by simp_all
    have "H[4 := src wr] = take 4 H @ map src [wr..<wr + 1] @ drop (4 + 1) H"
      using lenH by (simp add: upd_conv_take_nth_drop)
    moreover have "unat (remaining_writable_bytes_in_current_page L - 1) = 255"
      using rem_dec(1) [of "remaining_writable_bytes_in_current_page L" 255] r256
      by (simp add: r_def)
    ultimately show ?thesis
      using True rem_eq facts(7)
      by (simp add: populate_instruction_def copy_byte_def driver_consts k1 r256 wr_def)
  next
    case False
    have "unat size' - wr = n"
      using facts(5) by arith
    with False have kmin: "k = min r (unat size' - wr)" and r255: "r \<le> 255"
      using k_def' facts(6) by auto
    obtain L2 where L2: "populate_data_field size' src (of_nat 0) ?L1 = Inr L2"
      "page_program_instruction L2 =
          take (4 + 0) (page_program_instruction ?L1) @ map src [wr..<wr + k]
            @ drop (4 + 0 + k) (page_program_instruction ?L1)"
      "currently_written_bytes L2 = currently_written_bytes ?L1 + of_nat k"
      "current_page_program_instruction_size L2 =
          current_page_program_instruction_size ?L1 + of_nat k"
      "current_w25q128fv_flash_memory_address L2 =
          current_w25q128fv_flash_memory_address ?L1 + of_nat k"
      "remaining_writable_bytes_in_current_page L2 =
          (if k = r then 256 else remaining_writable_bytes_in_current_page ?L1 - of_nat k)"
      "current_page_to_write L2 =
          (if k = r then current_page_to_write ?L1 + 1 else current_page_to_write ?L1)"
      "next_page_to_write L2 = next_page_to_write ?L1"
      using populate_data_field_run [of ?L1 r 0 wr size' k src]
        lenH facts(7,5,9) page_lt r_bounds(1) r255 kmin
      by (auto simp add: r_def wr_def)
    have rem': "unat (remaining_writable_bytes_in_current_page L2) = (if k = r then 256 else r - k)"
      using L2(6) unat_sub_small16 [of k "remaining_writable_bytes_in_current_page L"] k_bounds(3)
      by (simp add: r_def)
    show ?thesis
      using False rem_eq L2(1-5,7,8) rem' facts(7) page_ne
      by (simp add: populate_instruction_def driver_consts)
  qed
  then obtain L' where L': "populate_instruction size' src ?L0 = Inr L'"
      "page_program_instruction L' = take 4 H @ map src [wr..<wr + k] @ drop (4 + k) H"
      "currently_written_bytes L' = currently_written_bytes L + of_nat k"
      "current_page_program_instruction_size L' = 4 + of_nat k"
      "current_w25q128fv_flash_memory_address L'
          = current_w25q128fv_flash_memory_address L + of_nat k"
      "unat (remaining_writable_bytes_in_current_page L') = (if k = r then 256 else r - k)"
      "current_page_to_write L'
          = (if k = r then current_page_to_write L + 1 else current_page_to_write L)"
      "next_page_to_write L' = current_page_to_write L' + 1"
    by blast
  have remL': "unat (remaining_writable_bytes_in_current_page L') = 256 - (a + k) mod 256"
    using L'(6) mod_page_step [of k a] k_bounds facts(6) by simp
  have pageL': "unat (current_page_to_write L') \<le> unat (current_page_to_write L) + 1"
    using L'(7) facts(8) by (simp add: unat_word_ariths)
  have len': "length (page_program_instruction L') = 259"
    using L'(2) lenH k_bounds(4) by simp
  have zero': "page_program_instruction L' ! 0 = W25Q128FV_PAGE_PROGRAM_INSTRUCTION"
    using L'(2) takeH by simp
  have le': "a + k \<le> unat e"
    using k_bounds(2) facts(3) unfolding n_def by arith
  have wr': "wr + k + (unat e - (a + k)) = unat size'"
    using k_bounds(2) facts(3,5) unfolding n_def by arith
  have budget': "unat (current_page_to_write L') + (unat e - (a + k)) + 1 < 2 ^ 32"
    using pageL' k_bounds(1,2) facts(3,8) unfolding n_def by arith
  have inv': "loop_inv size' e L'"
    unfolding loop_inv_def driver_consts L'(5,3) a_k w_k remL'
    using len' zero' le' wr' budget' facts(4) L'(8) by simp
  have tk: "take (unat (current_page_program_instruction_size L')) (page_program_instruction L')
          = take 4 H @ map src [wr..<wr + k]"
    unfolding L'(2,4) s_k using lenH by simp
  have sz: "unat (current_page_program_instruction_size L') = 4 + k"
    unfolding L'(4) by (rule s_k)
  have fits: "unat (current_page_program_instruction_size L')
      \<le> length (page_program_instruction L')"
    unfolding sz len' using k_bounds(4) by simp
  show ?thesis
    using L'(1,3,5) inv' a_k w_k tk takeH sz fits
    by (auto simp add: a_def wr_def)
qed

section \<open>The outer loop\<close>

lemma extend_Nil: "extend w [] = w"
  by (simp add: extend_def)

lemma extend_extend: "extend (extend w es) es' = extend w (es @ es')"
  by (simp add: extend_def)

lemma spi_calls_extend: "spi_calls (extend w es) = spi_calls w + length (filter is_spi es)"
  by (simp add: extend_def)

lemma trace_extend: "trace (extend w es) = trace w @ es"
  by (simp add: extend_def)

lemma write_enable_run:
  "send_w25q128fv_write_enable_instruction c t w
     = (spi_result c t (spi_calls w), extend w write_enable_events)"
  by (simp add: send_w25q128fv_write_enable_instruction_def Let_def HAL_SPI_Transmit_def
      set_cs_pin_low_def set_cs_pin_high_def spi_result_def extend_def write_enable_events_def)

lemma write_disable_run:
  "send_w25q128fv_write_disable_instruction c t w
     = (spi_result c t (spi_calls w), extend w write_disable_events)"
  by (simp add: send_w25q128fv_write_disable_instruction_def Let_def HAL_SPI_Transmit_def
      set_cs_pin_low_def set_cs_pin_high_def spi_result_def extend_def write_disable_events_def)

lemma transmit_low:
  "HAL_SPI_Transmit t d (set_cs_pin_low w)
     = (hal_value (spi_status t (spi_calls w)), extend w [CS_low, SPI_Transmit d])"
  by (simp add: HAL_SPI_Transmit_def set_cs_pin_low_def extend_def)

lemma cs_high_extend: "set_cs_pin_high (extend w es) = extend w (es @ [CS_high])"
  by (simp add: set_cs_pin_high_def extend_def)

lemma delay_extend: "HAL_Delay ms (extend w es) = extend w (es @ [Delay ms])"
  by (simp add: HAL_Delay_def extend_def)

lemma array_bytes_take:
  assumes "\<not> length pData < Size"
  shows "array_bytes pData Size = take Size pData"
  using assms by (simp add: array_bytes_def list_eq_iff_nth_eq)

lemma array_bytes_length: "length (array_bytes pData Size) = Size"
  by (simp add: array_bytes_def)

lemma spi_count_events [simp]:
  "length (filter is_spi write_enable_events) = 1"
  "length (filter is_spi write_disable_events) = 1"
  "length (filter is_spi (page_program_events a d)) = 1"
  by (simp_all add: write_enable_events_def write_disable_events_def page_program_events_def)

lemma write_loop_run:
  assumes "loop_inv size' e L"
  shows "write_loop c t size' src e L w =
     (case run_chunks c t src (spi_calls w) (unat (currently_written_bytes L))
             (split_write (unat (current_w25q128fv_flash_memory_address L))
                (unat e - unat (current_w25q128fv_flash_memory_address L))) of
        (r, es) \<Rightarrow> Some (Inr (r, extend w es)))"
  using assms
proof (induction "unat e - unat (current_w25q128fv_flash_memory_address L)"
    arbitrary: L w rule: less_induct)
  case less
  let ?a = "current_w25q128fv_flash_memory_address L"
  show ?case
  proof (cases "?a < e")
    case False
    then have "unat e - unat ?a = 0"
      by (simp add: word_less_nat_alt)
    then show ?thesis
      using False
      by (subst write_loop.simps) (simp add: split_write.simps extend_Nil)
  next
    case True
    define k where "k = write_chunk (unat ?a) (unat e - unat ?a)"
    define H where "H = (page_program_instruction L)
                [1 := ucast (drop_bit 16 ?a), 2 := ucast (drop_bit 8 ?a), 3 := ucast ?a]"
    obtain L' where L': "populate_instruction size' src (L\<lparr>page_program_instruction := H\<rparr>) = Inr L'"
      "loop_inv size' e L'"
      "unat (current_w25q128fv_flash_memory_address L') = unat ?a + k"
      "unat (currently_written_bytes L') = unat (currently_written_bytes L) + k"
      "take (unat (current_page_program_instruction_size L')) (page_program_instruction L')
          = W25Q128FV_PAGE_PROGRAM_INSTRUCTION # address_bytes ?a
              @ map src [unat (currently_written_bytes L)..<unat (currently_written_bytes L) + k]"
      "\<not> length (page_program_instruction L')
           < unat (current_page_program_instruction_size L')"
      using populate_instruction_step [OF less.prems True k_def H_def, of src]
      by (auto simp add: not_less)
    note frame = array_bytes_take [OF L'(6), unfolded L'(5)]
    have n: "0 < unat e - unat ?a"
      using True by (simp add: word_less_nat_alt)
    have kpos: "0 < k" "k \<le> unat e - unat ?a"
      using n by (auto simp add: k_def write_chunk_def driver_consts)
    have split: "split_write (unat ?a) (unat e - unat ?a)
        = (unat ?a, k) # split_write (unat ?a + k) (unat e - unat ?a - k)"
      using n by (subst split_write.simps) (simp add: k_def)
    have dec: "unat e - unat (current_w25q128fv_flash_memory_address L') < unat e - unat ?a"
      using L'(3) kpos n by arith
    have rest: "unat e - unat (current_w25q128fv_flash_memory_address L') = unat e - unat ?a - k"
      using L'(3) by arith
    note IH = less.hyps [OF dec L'(2)]
    let ?d = "map src [unat (currently_written_bytes L)..<unat (currently_written_bytes L) + k]"
    let ?we = write_enable_events
    let ?pp = "page_program_events (unat ?a) ?d"
    let ?wd = write_disable_events
    let ?k = "spi_calls w"
    have pp: "[CS_low, SPI_Transmit (W25Q128FV_PAGE_PROGRAM_INSTRUCTION # address_bytes ?a @ ?d),
               CS_high] = ?pp"
      by (simp add: page_program_events_def)
    have step: "write_loop c t size' src e L w =
      (if spi_result c t ?k \<noteq> W25Q128FV_EC_OK c
       then Some (Inr (W25Q128FV_EC_ERR c, extend w ?we))
       else if spi_result c t (?k + 1) \<noteq> W25Q128FV_EC_OK c
       then Some (Inr (spi_result c t (?k + 1), extend w (?we @ ?pp)))
       else if spi_result c t (?k + 2) \<noteq> W25Q128FV_EC_OK c
       then Some (Inr (W25Q128FV_EC_ERR c, extend w (?we @ ?pp @ Delay 3 # ?wd)))
       else write_loop c t size' src e L' (extend w (?we @ ?pp @ Delay 3 # ?wd)))"
      apply (subst write_loop.simps)
      apply (fold H_def)
      apply (simp add: True write_enable_run write_disable_run transmit_low cs_high_extend
          delay_extend extend_extend spi_calls_extend L'(1,6) frame
          spi_result_def [symmetric] pp [symmetric])
      done
    show ?thesis
      unfolding step split IH L'(3,4) rest
      by (simp add: spi_calls_extend extend_extend numeral_3_eq_3 split: prod.splits)
  qed
qed

lemma transmit_size_guard:
  assumes "current_w25q128fv_flash_memory_address L < e"
    and "spi_result c t (spi_calls w) = W25Q128FV_EC_OK c"
    and "populate_instruction size' src
           (L\<lparr>page_program_instruction :=
                (page_program_instruction L)
                  [1 := ucast (drop_bit 16 (current_w25q128fv_flash_memory_address L)),
                   2 := ucast (drop_bit 8 (current_w25q128fv_flash_memory_address L)),
                   3 := ucast (current_w25q128fv_flash_memory_address L)]\<rparr>) = Inr L1"
    and "length (page_program_instruction L1)
           < unat (current_page_program_instruction_size L1)"
  shows "write_loop c t size' src e L w = Some (Inl Buffer_overrun)"
  using assms by (subst write_loop.simps) (simp add: write_enable_run)

lemma write_loop_initial_array:
  assumes "loop_inv size' e L"
    and "length xs = W25Q128FV_PAGE_PROGRAM_INSTRUCTION_MAX_SIZE_IN_BYTES"
    and "xs ! 0 = W25Q128FV_PAGE_PROGRAM_INSTRUCTION"
  shows "write_loop c t size' src e (L\<lparr>page_program_instruction := xs\<rparr>) w
         = write_loop c t size' src e L w"
proof -
  have "loop_inv size' e (L\<lparr>page_program_instruction := xs\<rparr>)"
    using assms unfolding loop_inv_def by auto
  from write_loop_run [OF this] write_loop_run [OF assms(1)] show ?thesis
    by simp
qed

section \<open>The initial state\<close>

lemma page_budget:
  fixes s d :: nat
  assumes "s < 2 ^ 32" and "(s * 256) mod 2 ^ 32 + d \<le> 16731136"
  shows "s + d + 1 < 2 ^ 32"
proof -
  define p where "p = s mod 2 ^ 24"
  define q where "q = s div 2 ^ 24"
  have s: "s = q * 2 ^ 24 + p"
    by (simp add: p_def q_def)
  have "q < 256"
    using assms(1) unfolding q_def by (simp add: less_mult_imp_div_less)
  have "(s * 256) mod 2 ^ 32 = (256 * s) mod (256 * 2 ^ 24)"
    by (simp add: mult.commute)
  also have "\<dots> = 256 * p"
    unfolding p_def by (simp only: mult_mod_right)
  finally have "256 * p + d \<le> 16731136"
    using assms(2) by simp
  then show ?thesis
    using \<open>q < 256\<close> unfolding s by simp
qed

lemma start_addr_general:
  fixes start_page :: uint32_t and page_bytes_offset :: uint8_t
  shows "unat (start_page * 256 + ucast page_bytes_offset :: uint32_t)
         = (unat start_page * 256) mod 2 ^ 32 + unat page_bytes_offset"
    and "unat (start_page * 256 + ucast page_bytes_offset :: uint32_t) mod 256
         = unat page_bytes_offset"
proof -
  have off: "unat page_bytes_offset < 256"
    using unsigned_less [of page_bytes_offset, where 'a = nat] by simp
  define m where "m = (unat start_page * 256) mod 2 ^ 32"
  have "m = (256 * unat start_page) mod (256 * 2 ^ 24)"
    by (simp add: m_def mult.commute)
  also have "\<dots> = 256 * (unat start_page mod 2 ^ 24)"
    by (simp only: mult_mod_right)
  finally have m: "m = 256 * (unat start_page mod 2 ^ 24)" .
  have "unat start_page mod 2 ^ 24 < 2 ^ 24"
    by simp
  then have "m + unat page_bytes_offset < 2 ^ 32"
    using off unfolding m by simp
  then show 1: "unat (start_page * 256 + ucast page_bytes_offset :: uint32_t)
         = (unat start_page * 256) mod 2 ^ 32 + unat page_bytes_offset"
    using off by (simp add: unat_word_ariths unsigned_ucast_eq take_bit_eq_mod m_def)
  show "unat (start_page * 256 + ucast page_bytes_offset :: uint32_t) mod 256
         = unat page_bytes_offset"
    unfolding 1 m_def [symmetric] m using off by simp
qed

lemma offset_div_page:
  fixes page_bytes_offset :: uint8_t
  shows "(ucast page_bytes_offset :: uint32_t) div 256 = 0"
proof -
  have off: "unat page_bytes_offset < 256"
    using unsigned_less [of page_bytes_offset, where 'a = nat] by simp
  then have "unat ((ucast page_bytes_offset :: uint32_t) div 256) = 0"
    by (simp add: unat_div unsigned_ucast_eq take_bit_eq_mod)
  then show ?thesis
    by (simp add: unat_eq_zero)
qed

lemma initial_remaining:
  fixes page_bytes_offset :: uint8_t
  shows "unat (ucast (256 - (ucast page_bytes_offset :: uint32_t)) :: uint16_t)
          = 256 - unat page_bytes_offset"
    and "(ucast (256 - (ucast page_bytes_offset :: uint32_t)) :: uint16_t) \<noteq> 0"
proof -
  have off: "unat page_bytes_offset < 256"
    using unsigned_less [of page_bytes_offset, where 'a = nat] by simp
  have u: "unat (ucast page_bytes_offset :: uint32_t) = unat page_bytes_offset"
    using off by (simp add: unsigned_ucast_eq take_bit_eq_mod)
  have "unat (256 - (ucast page_bytes_offset :: uint32_t)) = 256 - unat page_bytes_offset"
    using off u by (simp add: unat_sub word_le_nat_alt)
  then show 1: "unat (ucast (256 - (ucast page_bytes_offset :: uint32_t)) :: uint16_t)
          = 256 - unat page_bytes_offset"
    using off by (simp add: unsigned_ucast_eq take_bit_eq_mod)
  show "(ucast (256 - (ucast page_bytes_offset :: uint32_t)) :: uint16_t) \<noteq> 0"
    using 1 off by (metis unat_eq_zero zero_less_diff less_numeral_extra(3))
qed

lemma no_wrap_of_less:
  fixes a s :: uint32_t
  assumes "a < a + s"
  shows "unat (a + s) = unat a + unat s"
proof -
  have "unat s < 2 ^ 32" "unat a < 2 ^ 32"
    using unsigned_less [of s, where 'a = nat] unsigned_less [of a, where 'a = nat] by simp_all
  then show ?thesis
    using assms by (simp add: word_less_nat_alt unat_plus_if' split: if_splits)
qed

lemma write_flash_memory_run:
  fixes start_page size' :: uint32_t and page_bytes_offset :: uint8_t
  defines "a0 \<equiv> start_page * 256 + ucast page_bytes_offset"
  shows "w25q128fv_write_flash_memory c t start_page page_bytes_offset size' src w =
     (if unat (a0 + size') > W25Q128FV_FLASH_MEMORY_TOTAL_SIZE_IN_BYTES
      then Some (Inr (W25Q128FV_EC_ERR c, w))
      else
        case run_chunks c t src (spi_calls w) 0
               (split_write (unat a0) (unat (a0 + size') - unat a0)) of
          (r, es) \<Rightarrow> Some (Inr (r, extend w es)))"
proof (cases "unat (a0 + size') > W25Q128FV_FLASH_MEMORY_TOTAL_SIZE_IN_BYTES")
  case True
  then show ?thesis
    by (simp add: w25q128fv_write_flash_memory_def a0_def word_less_nat_alt driver_consts)
next
  case False
  define e where "e = a0 + size'"
  define rem0 :: uint16_t where "rem0 = ucast (256 - (ucast page_bytes_offset :: uint32_t))"
  define L0 where "L0 =
     \<lparr>page_program_instruction =
        (replicate W25Q128FV_PAGE_PROGRAM_INSTRUCTION_MAX_SIZE_IN_BYTES 0)
          [0 := W25Q128FV_PAGE_PROGRAM_INSTRUCTION],
      currently_written_bytes = 0,
      current_page_program_instruction_size = 4,
      current_page_to_write = start_page,
      next_page_to_write = start_page + 1,
      remaining_writable_bytes_in_current_page = rem0,
      current_w25q128fv_flash_memory_address = a0\<rparr>"
  have unfold: "w25q128fv_write_flash_memory c t start_page page_bytes_offset size' src w
      = write_loop c t size' src e L0 w"
    using False initial_remaining(2) [of page_bytes_offset]
    by (simp add: w25q128fv_write_flash_memory_def a0_def e_def L0_def rem0_def Let_def
        word_less_nat_alt driver_consts offset_div_page)
  show ?thesis
  proof (cases "a0 < e")
    case lt: True
    have sum: "unat e = unat a0 + unat size'"
      using lt no_wrap_of_less [of a0 size'] by (simp add: e_def)
    have budget: "unat start_page + (unat e - unat a0) + 1 < 2 ^ 32"
    proof (rule page_budget)
      show "unat start_page < 2 ^ 32"
        using unsigned_less [of start_page, where 'a = nat] by simp
      have "unat a0 + (unat e - unat a0) \<le> 16731136"
        using False sum by (simp add: e_def driver_consts)
      then show "(unat start_page * 256) mod 2 ^ 32 + (unat e - unat a0) \<le> 16731136"
        using start_addr_general(1) [of start_page page_bytes_offset]
        by (simp add: a0_def)
    qed
    have "loop_inv size' e L0"
      unfolding loop_inv_def
      using False sum budget start_addr_general(2) [of start_page page_bytes_offset]
        initial_remaining(1) [of page_bytes_offset]
      by (simp add: L0_def rem0_def e_def a0_def driver_consts)
    from write_loop_run [OF this, of c t src w] show ?thesis
      using False unfold by (simp add: L0_def e_def)
  next
    case ge: False
    then have "unat e - unat a0 = 0"
      by (simp add: word_less_nat_alt)
    moreover have "write_loop c t size' src e L0 w = Some (Inr (W25Q128FV_EC_OK c, w))"
      using ge by (subst write_loop.simps) (simp add: L0_def)
    ultimately show ?thesis
      using False unfold by (simp add: e_def split_write.simps extend_Nil)
  qed
qed

section \<open>Properties of the splitting rule and of traces\<close>

subsection \<open>split_write\<close>

lemma write_chunk_bounds:
  assumes "0 < n"
  shows "0 < write_chunk a n" and "write_chunk a n \<le> n" and "write_chunk a n \<le> 255"
    and "write_chunk a n \<le> 256 - a mod 256"
  using assms by (auto simp add: write_chunk_def driver_consts)

lemma split_write_0: "split_write a 0 = []"
  by (simp add: split_write.simps)

lemma split_write_pos:
  "0 < n \<Longrightarrow> split_write a n
     = (a, write_chunk a n) # split_write (a + write_chunk a n) (n - write_chunk a n)"
  by (subst split_write.simps) simp

lemma split_write_chunks:
  "(x, k) \<in> set (split_write a n) \<Longrightarrow>
     0 < k \<and> k \<le> 255 \<and> k \<le> 256 - x mod 256 \<and> a \<le> x \<and> x + k \<le> a + n"
proof (induction a n rule: split_write.induct)
  case (1 a n)
  show ?case
  proof (cases "n = 0")
    case True
    with "1.prems" show ?thesis
      by (simp add: split_write_0)
  next
    case False
    then have n: "0 < n"
      by simp
    note b = write_chunk_bounds [OF n, of a]
    from "1.prems" n consider "x = a" "k = write_chunk a n"
      | "(x, k) \<in> set (split_write (a + write_chunk a n) (n - write_chunk a n))"
      by (auto simp add: split_write_pos)
    then show ?thesis
    proof cases
      case 1
      with b show ?thesis by simp
    next
      case 2
      from "1.IH" [OF False 2] b show ?thesis
        by simp
    qed
  qed
qed

lemma same_page:
  fixes x k :: nat
  assumes "0 < k" and "k \<le> 256 - x mod 256"
  shows "x div 256 = (x + k - 1) div 256"
proof -
  define m where "m = x mod 256 + k - 1"
  have "m < 256"
    using assms unfolding m_def by simp
  have "x + k - 1 = 256 * (x div 256) + m"
    using assms unfolding m_def by simp
  then show ?thesis
    using \<open>m < 256\<close> by simp
qed

lemma tiles_split:
  "map (\<lambda>(a, d). (a, length d)) ps = split_write a n \<Longrightarrow> tiles a (a + n) ps"
proof (induction a n arbitrary: ps rule: split_write.induct)
  case (1 a n)
  show ?case
  proof (cases "n = 0")
    case True
    with "1.prems" show ?thesis
      by (simp add: split_write_0)
  next
    case False
    then have n: "0 < n"
      by simp
    note b = write_chunk_bounds [OF n, of a]
    from "1.prems" n obtain x d ps' where ps: "ps = (x, d) # ps'" "x = a"
      "length d = write_chunk a n"
      "map (\<lambda>(a, d). (a, length d)) ps'
         = split_write (a + write_chunk a n) (n - write_chunk a n)"
      by (auto simp add: split_write_pos)
    from "1.IH" [OF False ps(4)] b ps(1-3) show ?thesis
      by auto
  qed
qed

lemma sum_split: "sum_list (map snd (split_write a n)) = n"
proof (induction a n rule: split_write.induct)
  case (1 a n)
  show ?case
  proof (cases "n = 0")
    case True
    then show ?thesis
      by (simp add: split_write_0)
  next
    case False
    then have n: "0 < n"
      by simp
    from "1.IH" [OF False] write_chunk_bounds(2) [OF n, of a] n show ?thesis
      by (simp add: split_write_pos)
  qed
qed

subsection \<open>tiles\<close>

lemma tiles_lower: "tiles a b ps \<Longrightarrow> j < length ps \<Longrightarrow> a \<le> fst (ps ! j)"
proof (induction ps arbitrary: a j)
  case Nil
  then show ?case by simp
next
  case (Cons p ps)
  obtain x d where p: "p = (x, d)"
    by (cases p)
  show ?case
  proof (cases j)
    case 0
    with Cons.prems p show ?thesis by simp
  next
    case (Suc j')
    with Cons.prems p Cons.IH [of "a + length d" j'] show ?thesis
      by simp
  qed
qed

lemma tiles_disjoint:
  "tiles a b ps \<Longrightarrow> i < j \<Longrightarrow> j < length ps \<Longrightarrow>
     fst (ps ! i) + length (snd (ps ! i)) \<le> fst (ps ! j)"
proof (induction ps arbitrary: a i j)
  case Nil
  then show ?case by simp
next
  case (Cons p ps)
  obtain x d where p: "p = (x, d)"
    by (cases p)
  from Cons.prems obtain j' where j: "j = Suc j'"
    by (cases j) auto
  show ?case
  proof (cases i)
    case 0
    with Cons.prems p j tiles_lower [of "a + length d" b ps j'] show ?thesis
      by simp
  next
    case (Suc i')
    with Cons.prems p j Cons.IH [of "a + length d" i' j'] show ?thesis
      by simp
  qed
qed

lemma tiles_union:
  "tiles a b ps \<Longrightarrow> (\<Union>(x, d) \<in> set ps. {x..<x + length d}) = {a..<b} \<and> a \<le> b"
proof (induction ps arbitrary: a)
  case Nil
  then show ?case by simp
next
  case (Cons p ps)
  obtain x d where p: "p = (x, d)"
    by (cases p)
  with Cons.prems Cons.IH [of "a + length d"] show ?case
    by auto
qed

lemma decode_address:
  assumes "a < 2 ^ 24"
  shows "address_bytes (of_nat a :: uint32_t)
         = [of_nat (a div 65536), of_nat (a div 256 mod 256), of_nat (a mod 256)]"
    and "unat (of_nat (a div 65536) :: uint8_t) * 65536
           + unat (of_nat (a div 256 mod 256) :: uint8_t) * 256
           + unat (of_nat (a mod 256) :: uint8_t) = a"
proof -
  have ua: "unat (of_nat a :: uint32_t) = a"
    using assms by (simp add: unat_of_nat)
  have a32: "a mod 4294967296 = a"
    using assms by simp
  have hi: "a div 65536 < 256"
    using assms by (simp add: less_mult_imp_div_less)
  have b2: "(ucast (drop_bit 16 (of_nat a :: uint32_t)) :: uint8_t) = of_nat (a div 65536)"
    using hi by (simp add: word_unat_eq_iff unsigned_ucast_eq unat_drop_bit_eq ua
        take_bit_eq_mod drop_bit_eq_div unat_of_nat unat_div a32)
  have b1: "(ucast (drop_bit 8 (of_nat a :: uint32_t)) :: uint8_t) = of_nat (a div 256 mod 256)"
    by (simp add: word_unat_eq_iff unsigned_ucast_eq unat_drop_bit_eq ua
        take_bit_eq_mod drop_bit_eq_div unat_of_nat unat_div a32)
  have b0: "(ucast (of_nat a :: uint32_t) :: uint8_t) = of_nat (a mod 256)"
    by (simp add: word_unat_eq_iff unsigned_ucast_eq ua take_bit_eq_mod unat_of_nat a32)
  show "address_bytes (of_nat a :: uint32_t)
         = [of_nat (a div 65536), of_nat (a div 256 mod 256), of_nat (a mod 256)]"
    by (simp only: address_bytes_def b2 b1 b0)
  define q where "q = a div 256"
  define d where "d = q div 256"
  define m where "m = q mod 256"
  define l where "l = a mod 256"
  have q: "q = d * 256 + m"
    by (simp add: d_def m_def)
  have a: "a = q * 256 + l"
    by (simp add: q_def l_def)
  have "a div 65536 = d"
    by (simp add: d_def q_def div_mult2_eq)
  moreover have "d * 65536 + m * 256 + l = a"
    unfolding a q by simp
  ultimately have "a div 65536 * 65536 + a div 256 mod 256 * 256 + a mod 256 = a"
    unfolding m_def l_def q_def by simp
  then show "unat (of_nat (a div 65536) :: uint8_t) * 65536
           + unat (of_nat (a div 256 mod 256) :: uint8_t) * 256
           + unat (of_nat (a mod 256) :: uint8_t) = a"
    using hi by (simp add: unat_of_nat)
qed

lemma page_programs_append:
  "page_programs (xs @ ys) = page_programs xs @ page_programs ys"
  by (induction xs rule: page_programs.induct) simp_all

lemma page_programs_events:
  "page_programs write_enable_events = []"
  "page_programs write_disable_events = []"
  "a < 2 ^ 24 \<Longrightarrow> page_programs (page_program_events a d) = [(a, d)]"
  using decode_address [of a]
  by (simp_all add: write_enable_events_def write_disable_events_def page_program_events_def)

lemmas write_events = write_enable_events_def write_disable_events_def page_program_events_def

lemma run_chunks_cs: "chip_select False (snd (run_chunks c t src k off chs))"
proof (induction chs arbitrary: k off)
  case Nil
  show ?case by simp
next
  case (Cons ch chs)
  obtain a n where ch: "ch = (a, n)"
    by (cases ch)
  from Cons [of "k + 3" "off + n"] show ?case
    by (auto simp add: ch write_events split: prod.splits)
qed

lemma run_chunks_programs_sub:
  assumes "\<forall>(a, n) \<in> set chs. a < 2 ^ 24"
    and "(x, d) \<in> set (page_programs (snd (run_chunks c t src k off chs)))"
  shows "(x, length d) \<in> set chs"
  using assms
proof (induction chs arbitrary: k off)
  case Nil
  then show ?case by simp
next
  case (Cons ch chs)
  obtain a n where ch: "ch = (a, n)"
    by (cases ch)
  have a: "a < 2 ^ 24"
    using Cons.prems(1) ch by simp
  from Cons.prems(2) Cons.IH [of "k + 3" "off + n"] Cons.prems(1) show ?case
    by (auto simp add: ch page_programs_append page_programs_events a
        split: if_splits prod.splits)
qed

lemma run_chunks_ok:
  assumes "\<forall>k. spi_result c t k = W25Q128FV_EC_OK c"
    and "\<forall>(a, n) \<in> set chs. a < 2 ^ 24"
  shows "fst (run_chunks c t src k off chs) = W25Q128FV_EC_OK c"
    and "map (\<lambda>(a, d). (a, length d)) (page_programs (snd (run_chunks c t src k off chs))) = chs"
    and "concat (map snd (page_programs (snd (run_chunks c t src k off chs))))
          = map src [off..<off + sum_list (map snd chs)]"
  using assms(2)
proof (induction chs arbitrary: k off)
  case Nil
  {
    case 1 show ?case by simp
  next
    case 2 show ?case by simp
  next
    case 3 show ?case by simp
  }
next
  case (Cons ch chs)
  obtain a n where ch: "ch = (a, n)"
    by (cases ch)
  {
    case 1
    with Cons.IH(1) [of "k + 3" "off + n"] assms(1) show ?case
      by (auto simp add: ch split: prod.splits)
  next
    case 2
    with Cons.IH(2) [of "k + 3" "off + n"] assms(1) show ?case
      by (auto simp add: ch page_programs_append page_programs_events split: prod.splits)
  next
    case 3
    have "[off..<off + (n + sum_list (map snd chs))]
        = [off..<off + n] @ [off + n..<off + n + sum_list (map snd chs)]"
      using upt_add_eq_append [of off "off + n" "sum_list (map snd chs)"] by (simp add: add.assoc)
    with 3 Cons.IH(3) [of "k + 3" "off + n"] assms(1) show ?case
      by (auto simp add: ch page_programs_append page_programs_events split: prod.splits)
  }
qed

lemma write_valid_run:
  assumes "valid_request start_page page_bytes_offset size'"
  shows "w25q128fv_write_flash_memory c t start_page page_bytes_offset size' src w =
     Some (Inr (fst (run_chunks c t src (spi_calls w) 0
                       (split_write (start_address start_page page_bytes_offset) (unat size'))),
                extend w (snd (run_chunks c t src (spi_calls w) 0
                       (split_write (start_address start_page page_bytes_offset) (unat size'))))))"
proof -
  let ?a0 = "start_page * 256 + ucast page_bytes_offset :: uint32_t"
  have v: "unat start_page * 256 + unat page_bytes_offset + unat size' \<le> 16731136"
    using assms by (simp add: valid_request_def driver_consts)
  then have a0: "unat ?a0 = unat start_page * 256 + unat page_bytes_offset"
    using start_addr_unat [of start_page page_bytes_offset] by simp
  have e: "unat (?a0 + size') = unat start_page * 256 + unat page_bytes_offset + unat size'"
    using v a0 by (simp add: unat_word_ariths)
  show ?thesis
    unfolding write_flash_memory_run
    using v by (simp add: a0 e start_address_def driver_consts case_prod_beta)
qed

lemma valid_chunks:
  assumes "valid_request start_page page_bytes_offset size'"
  shows "\<forall>(a, n) \<in> set (split_write (start_address start_page page_bytes_offset) (unat size')).
           a < 2 ^ 24"
proof -
  {
    fix a n
    assume "(a, n) \<in> set (split_write (start_address start_page page_bytes_offset) (unat size'))"
    from split_write_chunks [OF this] assms have "a < 2 ^ 24"
      by (simp add: valid_request_def start_address_def driver_consts)
  }
  then show ?thesis
    by auto
qed

lemma transport_ok:
  assumes "codes_ok c" and "\<forall>k. spi_status t k = HAL_OK"
  shows "\<forall>k. spi_result c t k = W25Q128FV_EC_OK c"
  using assms by (simp add: spi_result_def codes_ok_def HAL_ret_handler_def)

section \<open>Whole operations\<close>

lemma write_ok_run:
  assumes "codes_ok c" and "\<forall>k. spi_status t k = HAL_OK"
    and "valid_request start_page page_bytes_offset size'"
  shows "\<exists>es. w25q128fv_write_flash_memory c t start_page page_bytes_offset size' src w
          = Some (Inr (W25Q128FV_EC_OK c, extend w es))
      \<and> program_ranges es = split_write (start_address start_page page_bytes_offset) (unat size')"
proof -
  let ?run = "run_chunks c t src (spi_calls w) 0
                (split_write (start_address start_page page_bytes_offset) (unat size'))"
  note ok = run_chunks_ok [OF transport_ok [OF assms(1,2)] valid_chunks [OF assms(3)],
      of src "spi_calls w" 0]
  have "w25q128fv_write_flash_memory c t start_page page_bytes_offset size' src w
        = Some (Inr (W25Q128FV_EC_OK c, extend w (snd ?run)))"
    using ok(1) by (simp add: write_valid_run [OF assms(3)])
  then show ?thesis
    using ok(2) by (auto simp add: program_ranges_def)
qed

lemma example_codes_ok: "codes_ok example_codes"
  by (simp add: codes_ok_def example_codes_def)

lemma example_hyps:
  "codes_ok example_codes" "\<forall>k. spi_status always_ok k = HAL_OK"
  "valid_request 0 250 300" "valid_request 0 0 256"
  by (simp_all add: codes_ok_def example_codes_def always_ok_def valid_request_def driver_consts)

lemma split_300: "split_write 250 300 = [(250, 6), (256, 1), (257, 255), (512, 1), (513, 37)]"
  by (simp add: split_write.simps write_chunk_def driver_consts)

lemma split_page: "split_write 0 256 = [(0, 1), (1, 255)]"
  by (simp add: split_write.simps write_chunk_def driver_consts)

lemma split_one: "split_write 0 (Suc 0) = [(0, 1)]"
  by (simp add: split_write.simps write_chunk_def driver_consts)

lemmas bus_defs = HAL_SPI_Transmit_def HAL_SPI_Receive_def set_cs_pin_low_def
  set_cs_pin_high_def HAL_Delay_def send_w25q128fv_write_enable_instruction_def
  send_w25q128fv_write_disable_instruction_def

lemma reset_cs:
  "\<exists>es. trace (snd (w25q128fv_software_reset c t w)) = trace w @ es \<and> chip_select False es"
  by (simp add: w25q128fv_software_reset_def bus_defs Let_def)

lemma read_id_cs:
  "\<exists>es. trace (snd (snd (w25q128fv_read_id c t p w))) = trace w @ es \<and> chip_select False es"
  by (simp add: w25q128fv_read_id_def bus_defs Let_def)

lemma read_cs:
  "\<exists>es. trace (snd (w25q128fv_read_flash_memory c t start_page page_bytes_offset size' w))
          = trace w @ es \<and> chip_select False es"
  by (simp add: w25q128fv_read_flash_memory_def bus_defs Let_def)

lemma fast_read_cs:
  "\<exists>es. trace (snd (w25q128fv_fast_read_flash_memory c t start_page page_bytes_offset size' w))
          = trace w @ es \<and> chip_select False es"
  by (simp add: w25q128fv_fast_read_flash_memory_def bus_defs Let_def)

lemma erase_sector_cs:
  "\<exists>es. trace (snd (w25q128fv_erase_sector c t sector_number w)) = trace w @ es
      \<and> chip_select False es"
  by (simp add: w25q128fv_erase_sector_def bus_defs Let_def)

lemma chip_erase_cs:
  "\<exists>es. trace (snd (w25q128fv_chip_erase c t w)) = trace w @ es \<and> chip_select False es"
  by (simp add: w25q128fv_chip_erase_def bus_defs Let_def)

lemma write_cs:
  "\<exists>r w' es. w25q128fv_write_flash_memory c t start_page page_bytes_offset size' src w
      = Some (Inr (r, w')) \<and> trace w' = trace w @ es \<and> chip_select False es"
proof (cases "unat (start_page * 256 + ucast page_bytes_offset + size')
                > W25Q128FV_FLASH_MEMORY_TOTAL_SIZE_IN_BYTES")
  case True
  then have "w25q128fv_write_flash_memory c t start_page page_bytes_offset size' src w
      = Some (Inr (W25Q128FV_EC_ERR c, w)) \<and> trace w = trace w @ [] \<and> chip_select False []"
    by (simp add: write_flash_memory_run)
  then show ?thesis
    by blast
next
  case False
  let ?a0 = "start_page * 256 + ucast page_bytes_offset :: uint32_t"
  let ?run = "run_chunks c t src (spi_calls w) 0
                (split_write (unat ?a0) (unat (?a0 + size') - unat ?a0))"
  from False have "w25q128fv_write_flash_memory c t start_page page_bytes_offset size' src w
      = Some (Inr (fst ?run, extend w (snd ?run)))"
    by (simp add: write_flash_memory_run case_prod_beta)
  then show ?thesis
    using trace_extend [of w "snd ?run"] run_chunks_cs [of c t src "spi_calls w" 0]
    by blast
qed

lemma spi_result_ok_iff:
  assumes "codes_ok c"
  shows "spi_result c t k = W25Q128FV_EC_OK c \<longleftrightarrow> spi_status t k = HAL_OK"
  using assms by (cases "spi_status t k") (auto simp add: spi_result_def codes_ok_def HAL_ret_handler_def)

lemma three_calls:
  fixes i k :: nat
  assumes "k \<le> i" and "i < k + 3"
  shows "i = k \<or> i = k + 1 \<or> i = k + 2"
  using assms by arith

lemma run_chunks_abort:
  assumes "codes_ok c"
  shows "(\<forall>i. k \<le> i \<and> i + 1 < k + length (filter is_spi (snd (run_chunks c t src k off chs)))
            \<longrightarrow> spi_status t i = HAL_OK)
    \<and> (fst (run_chunks c t src k off chs) = W25Q128FV_EC_OK c \<longrightarrow>
         (\<forall>i. k \<le> i \<and> i < k + length (filter is_spi (snd (run_chunks c t src k off chs)))
            \<longrightarrow> spi_status t i = HAL_OK))
    \<and> (fst (run_chunks c t src k off chs) \<noteq> W25Q128FV_EC_OK c \<longrightarrow>
         0 < length (filter is_spi (snd (run_chunks c t src k off chs)))
         \<and> spi_status t (k + length (filter is_spi (snd (run_chunks c t src k off chs))) - 1)
              \<noteq> HAL_OK
         \<and> (\<exists>es0 bs. snd (run_chunks c t src k off chs) = es0 @ [SPI_Transmit bs, CS_high]
              \<and> fst (run_chunks c t src k off chs)
                  = (if hd bs = W25Q128FV_PAGE_PROGRAM_INSTRUCTION
                     then spi_result c t
                            (k + length (filter is_spi (snd (run_chunks c t src k off chs))) - 1)
                     else W25Q128FV_EC_ERR c)))"
proof (induction chs arbitrary: k off)
  case Nil
  show ?case by auto
next
  case (Cons ch chs)
  obtain a n where ch: "ch = (a, n)"
    by (cases ch)
  let ?d = "map src [off..<off + n]"
  note iff = spi_result_ok_iff [OF assms, of t]
  have err: "W25Q128FV_EC_ERR c \<noteq> W25Q128FV_EC_OK c"
    using assms unfolding codes_ok_def by blast
  have opc: "W25Q128FV_WRITE_ENABLE_INSTRUCTION \<noteq> W25Q128FV_PAGE_PROGRAM_INSTRUCTION"
    "W25Q128FV_WRITE_DISABLE_INSTRUCTION \<noteq> W25Q128FV_PAGE_PROGRAM_INSTRUCTION"
    by (simp_all add: W25Q128FV_WRITE_ENABLE_INSTRUCTION_def W25Q128FV_WRITE_DISABLE_INSTRUCTION_def
        W25Q128FV_PAGE_PROGRAM_INSTRUCTION_def)
  consider (we) "spi_status t k \<noteq> HAL_OK"
    | (pp) "spi_status t k = HAL_OK" "spi_status t (k + 1) \<noteq> HAL_OK"
    | (wd) "spi_status t k = HAL_OK" "spi_status t (k + 1) = HAL_OK"
        "spi_status t (k + 2) \<noteq> HAL_OK"
    | (go) "spi_status t k = HAL_OK" "spi_status t (k + 1) = HAL_OK"
        "spi_status t (k + 2) = HAL_OK"
    by blast
  then show ?case
  proof cases
    case we
    then have run: "run_chunks c t src k off (ch # chs) = (W25Q128FV_EC_ERR c, write_enable_events)"
      by (simp add: ch iff)
    have m: "length (filter is_spi write_enable_events) = 1"
      by simp
    have A: "\<forall>i. k \<le> i \<and> i + 1 < k + 1 \<longrightarrow> spi_status t i = HAL_OK"
      by auto
    have C: "0 < (1::nat) \<and> spi_status t (k + 1 - 1) \<noteq> HAL_OK
        \<and> (\<exists>es0 bs. write_enable_events = es0 @ [SPI_Transmit bs, CS_high]
             \<and> W25Q128FV_EC_ERR c
                 = (if hd bs = W25Q128FV_PAGE_PROGRAM_INSTRUCTION
                    then spi_result c t (k + 1 - 1) else W25Q128FV_EC_ERR c))"
      using we opc
      by (intro conjI exI [of _ "[CS_low]"] exI [of _ "[W25Q128FV_WRITE_ENABLE_INSTRUCTION]"])
        (simp_all add: write_enable_events_def)
    show ?thesis
      unfolding run fst_conv snd_conv m
      using A C err by blast
  next
    case pp
    then have run: "run_chunks c t src k off (ch # chs)
        = (spi_result c t (k + 1), write_enable_events @ page_program_events a ?d)"
      by (simp add: ch iff)
    have ne: "spi_result c t (k + 1) \<noteq> W25Q128FV_EC_OK c"
      using pp by (simp add: iff)
    have m: "length (filter is_spi (write_enable_events @ page_program_events a ?d)) = 2"
      by simp
    have A: "\<forall>i. k \<le> i \<and> i + 1 < k + 2 \<longrightarrow> spi_status t i = HAL_OK"
    proof (intro allI impI)
      fix i assume "k \<le> i \<and> i + 1 < k + 2"
      then have "i = k"
        by arith
      with pp show "spi_status t i = HAL_OK"
        by simp
    qed
    have C: "0 < (2::nat) \<and> spi_status t (k + 2 - 1) \<noteq> HAL_OK
        \<and> (\<exists>es0 bs. write_enable_events @ page_program_events a ?d
                       = es0 @ [SPI_Transmit bs, CS_high]
             \<and> spi_result c t (k + 1)
                 = (if hd bs = W25Q128FV_PAGE_PROGRAM_INSTRUCTION
                    then spi_result c t (k + 2 - 1) else W25Q128FV_EC_ERR c))"
      using pp
      by (intro conjI exI [of _ "write_enable_events @ [CS_low]"]
          exI [of _ "W25Q128FV_PAGE_PROGRAM_INSTRUCTION # address_bytes (of_nat a) @ ?d"])
        (simp_all add: page_program_events_def)
    show ?thesis
      unfolding run fst_conv snd_conv m
      using A C ne by blast
  next
    case wd
    then have run: "run_chunks c t src k off (ch # chs)
        = (W25Q128FV_EC_ERR c,
           write_enable_events @ page_program_events a ?d @ Delay 3 # write_disable_events)"
      by (simp add: ch iff)
    have m: "length (filter is_spi
        (write_enable_events @ page_program_events a ?d @ Delay 3 # write_disable_events)) = 3"
      by simp
    have A: "\<forall>i. k \<le> i \<and> i + 1 < k + 3 \<longrightarrow> spi_status t i = HAL_OK"
    proof (intro allI impI)
      fix i assume "k \<le> i \<and> i + 1 < k + 3"
      then have "i = k \<or> i = k + 1"
        by arith
      with wd show "spi_status t i = HAL_OK"
        by auto
    qed
    have C: "0 < (3::nat) \<and> spi_status t (k + 3 - 1) \<noteq> HAL_OK
        \<and> (\<exists>es0 bs. write_enable_events @ page_program_events a ?d
                         @ Delay 3 # write_disable_events
                       = es0 @ [SPI_Transmit bs, CS_high]
             \<and> W25Q128FV_EC_ERR c
                 = (if hd bs = W25Q128FV_PAGE_PROGRAM_INSTRUCTION
                    then spi_result c t (k + 3 - 1) else W25Q128FV_EC_ERR c))"
      using wd opc
      by (intro conjI
          exI [of _ "write_enable_events @ page_program_events a ?d @ [Delay 3, CS_low]"]
          exI [of _ "[W25Q128FV_WRITE_DISABLE_INSTRUCTION]"])
        (simp_all add: write_disable_events_def)
    show ?thesis
      unfolding run fst_conv snd_conv m
      using A C err by blast
  next
    case go
    let ?rest = "run_chunks c t src (k + 3) (off + n) chs"
    let ?pre = "write_enable_events @ page_program_events a ?d @ Delay 3 # write_disable_events"
    have run: "run_chunks c t src k off (ch # chs) = (fst ?rest, ?pre @ snd ?rest)"
      using go by (simp add: ch iff case_prod_beta)
    define m' where "m' = length (filter is_spi (snd ?rest))"
    have m: "length (filter is_spi (?pre @ snd ?rest)) = 3 + m'"
      by (simp add: m'_def)
    note IH = Cons.IH [of "k + 3" "off + n", folded m'_def]
    have first: "\<And>i. k \<le> i \<Longrightarrow> i < k + 3 \<Longrightarrow> spi_status t i = HAL_OK"
      using go three_calls by blast
    have shift: "k + 3 + m' - 1 = k + (3 + m') - 1"
      by simp
    have A: "\<forall>i. k \<le> i \<and> i + 1 < k + (3 + m') \<longrightarrow> spi_status t i = HAL_OK"
    proof (intro allI impI)
      fix i assume i: "k \<le> i \<and> i + 1 < k + (3 + m')"
      show "spi_status t i = HAL_OK"
      proof (cases "i < k + 3")
        case True
        with i first show ?thesis by blast
      next
        case False
        with i IH show ?thesis by simp
      qed
    qed
    have B: "fst ?rest = W25Q128FV_EC_OK c \<longrightarrow>
        (\<forall>i. k \<le> i \<and> i < k + (3 + m') \<longrightarrow> spi_status t i = HAL_OK)"
    proof (intro allI impI)
      fix i assume ok: "fst ?rest = W25Q128FV_EC_OK c" and i: "k \<le> i \<and> i < k + (3 + m')"
      show "spi_status t i = HAL_OK"
      proof (cases "i < k + 3")
        case True
        with i first show ?thesis by blast
      next
        case False
        with i ok IH show ?thesis by simp
      qed
    qed
    have C: "fst ?rest \<noteq> W25Q128FV_EC_OK c \<longrightarrow>
         0 < 3 + m'
         \<and> spi_status t (k + (3 + m') - 1) \<noteq> HAL_OK
         \<and> (\<exists>es0 bs. ?pre @ snd ?rest = es0 @ [SPI_Transmit bs, CS_high]
              \<and> fst ?rest
                  = (if hd bs = W25Q128FV_PAGE_PROGRAM_INSTRUCTION
                     then spi_result c t (k + (3 + m') - 1)
                     else W25Q128FV_EC_ERR c))"
    proof
      assume ne: "fst ?rest \<noteq> W25Q128FV_EC_OK c"
      with IH obtain es0 bs where r: "0 < m'" "spi_status t (k + 3 + m' - 1) \<noteq> HAL_OK"
        "snd ?rest = es0 @ [SPI_Transmit bs, CS_high]"
        "fst ?rest = (if hd bs = W25Q128FV_PAGE_PROGRAM_INSTRUCTION
                     then spi_result c t (k + 3 + m' - 1) else W25Q128FV_EC_ERR c)"
        by blast
      have "?pre @ snd ?rest = (?pre @ es0) @ [SPI_Transmit bs, CS_high]"
        using r(3) by simp
      with r(1,2,4) show "0 < 3 + m'
         \<and> spi_status t (k + (3 + m') - 1) \<noteq> HAL_OK
         \<and> (\<exists>es0 bs. ?pre @ snd ?rest = es0 @ [SPI_Transmit bs, CS_high]
              \<and> fst ?rest
                  = (if hd bs = W25Q128FV_PAGE_PROGRAM_INSTRUCTION
                     then spi_result c t (k + (3 + m') - 1)
                     else W25Q128FV_EC_ERR c))"
        unfolding shift by blast
    qed
    show ?thesis
      unfolding run fst_conv snd_conv m
      using A B C by blast
  qed
qed

lemma read_id_run:
  assumes "codes_ok c" and "spi_status t (spi_calls w) = HAL_OK"
    and "spi_status t (Suc (spi_calls w)) = HAL_OK"
  shows "w25q128fv_read_id c t p w =
     (let rx = spi_rx t (Suc (spi_calls w));
          w' = extend w [CS_low, SPI_Transmit [W25Q128FV_READ_JEDEC_ID_INSTRUCTION],
                         SPI_Receive 3, CS_high]
      in if rx 0 = 0 \<and> rx 1 = 0 \<and> rx 2 = 0 then (W25Q128FV_EC_NR c, p, w')
         else (W25Q128FV_EC_OK c,
               store_id (push_bit 16 (ucast (rx 0)) OR push_bit 8 (ucast (rx 1)) OR ucast (rx 2)) p,
               w'))"
proof -
  have 3: "[0..<3] = [0, 1, 2]"
    by (simp add: upt_rec)
  show ?thesis
    using assms
    by (simp add: w25q128fv_read_id_def HAL_SPI_Transmit_def HAL_SPI_Receive_def
        set_cs_pin_low_def set_cs_pin_high_def codes_ok_def HAL_ret_handler_def Let_def 3
        extend_def)
qed

lemma out_of_range_rejected:
  assumes "W25Q128FV_FLASH_MEMORY_TOTAL_SIZE_IN_BYTES
             < unat start_page * W25Q128FV_PAGE_SIZE_IN_BYTES + unat page_bytes_offset + unat size'"
    and "unat start_page * W25Q128FV_PAGE_SIZE_IN_BYTES + unat page_bytes_offset + unat size'
           < 2 ^ 32"
  shows "w25q128fv_write_flash_memory c t start_page page_bytes_offset size' src w
           = Some (Inr (W25Q128FV_EC_ERR c, w))"
    and "w25q128fv_read_flash_memory c t start_page page_bytes_offset size' w
           = (W25Q128FV_EC_ERR c, w)"
    and "w25q128fv_fast_read_flash_memory c t start_page page_bytes_offset size' w
           = (W25Q128FV_EC_ERR c, w)"
proof -
  let ?a0 = "start_page * 256 + ucast page_bytes_offset :: uint32_t"
  have a0: "unat ?a0 = unat start_page * 256 + unat page_bytes_offset"
    using assms(2) start_addr_unat [of start_page page_bytes_offset]
    by (simp add: driver_consts)
  have e: "unat (?a0 + size') = unat start_page * 256 + unat page_bytes_offset + unat size'"
    using assms(2) a0 by (simp add: unat_word_ariths driver_consts)
  have gt: "of_nat W25Q128FV_FLASH_MEMORY_TOTAL_SIZE_IN_BYTES < ?a0 + size'"
    using assms(1) e by (simp add: word_less_nat_alt driver_consts)
  show "w25q128fv_write_flash_memory c t start_page page_bytes_offset size' src w
           = Some (Inr (W25Q128FV_EC_ERR c, w))"
    using gt by (simp add: w25q128fv_write_flash_memory_def driver_consts)
  show "w25q128fv_read_flash_memory c t start_page page_bytes_offset size' w
           = (W25Q128FV_EC_ERR c, w)"
    using gt by (simp add: w25q128fv_read_flash_memory_def driver_consts)
  show "w25q128fv_fast_read_flash_memory c t start_page page_bytes_offset size' w
           = (W25Q128FV_EC_ERR c, w)"
    using gt by (simp add: w25q128fv_fast_read_flash_memory_def driver_consts)
qed

lemma bad_sector_rejected:
  assumes "W25Q128FV_TOTAL_SECTORS \<le> unat sector_number"
  shows "w25q128fv_erase_sector c t sector_number w = (W25Q128FV_EC_ERR c, w)"
  using assms
  by (simp add: w25q128fv_erase_sector_def word_less_nat_alt W25Q128FV_TOTAL_SECTORS_def
      W25Q128FV_TOTAL_SECTORS_MINUS_ONE_def)

lemma wrapped_page:
  "program_ranges (result_trace
      (w25q128fv_write_flash_memory example_codes always_ok 0x01000000 0 1 example_src
         initial_world)) = [(0, 1)]"
proof -
  have ok: "\<forall>k. spi_result example_codes always_ok k = W25Q128FV_EC_OK example_codes"
    by (rule transport_ok [OF example_hyps(1,2)])
  have chs: "\<forall>(a, n) \<in> set [(0 :: nat, 1 :: nat)]. a < 2 ^ 24"
    by simp
  note r = run_chunks_ok(2) [OF ok chs, of example_src 0 0]
  show ?thesis
    using r
    by (simp add: write_flash_memory_run driver_consts split_one case_prod_beta
        trace_extend program_ranges_def initial_world_def)
qed


section \<open>The claims\<close>

text \<open>
  Claim C1. For every write request whose resolved range lies within the device, and a
  transport on which every call succeeds, \<open>w25q128fv_write_flash_memory\<close> returns
  \<open>W25Q128FV_EC_OK\<close>, and the Page Program instructions it has put on the bus, in their
  order, have address ranges that start at the start address, each begin where the one
  before ends (so they are contiguous and do not overlap), and end at the end address;
  their union is exactly the requested range, and their payloads, one after the other,
  are the bytes of \<open>src\<close> in order.
\<close>

theorem write_covers_range:
  assumes "codes_ok c" and "\<forall>k. spi_status t k = HAL_OK"
    and "valid_request start_page page_bytes_offset size'"
  shows "\<exists>w' es.
      w25q128fv_write_flash_memory c t start_page page_bytes_offset size' src w
        = Some (Inr (W25Q128FV_EC_OK c, w'))
      \<and> trace w' = trace w @ es
      \<and> tiles (start_address start_page page_bytes_offset)
          (start_address start_page page_bytes_offset + unat size') (page_programs es)
      \<and> (\<forall>i j. i < j \<and> j < length (page_programs es) \<longrightarrow>
            fst (page_programs es ! i) + length (snd (page_programs es ! i))
              \<le> fst (page_programs es ! j))
      \<and> (\<Union>(a, d) \<in> set (page_programs es). {a..<a + length d})
          = {start_address start_page page_bytes_offset
               ..<start_address start_page page_bytes_offset + unat size'}
      \<and> concat (map snd (page_programs es)) = map src [0..<unat size']"
proof -
  let ?a = "start_address start_page page_bytes_offset"
  let ?chs = "split_write ?a (unat size')"
  let ?run = "run_chunks c t src (spi_calls w) 0 ?chs"
  note ok = run_chunks_ok [OF transport_ok [OF assms(1,2)] valid_chunks [OF assms(3)],
      of src "spi_calls w" 0]
  have t: "tiles ?a (?a + unat size') (page_programs (snd ?run))"
    using ok(2) by (rule tiles_split)
  have run: "w25q128fv_write_flash_memory c t start_page page_bytes_offset size' src w
        = Some (Inr (W25Q128FV_EC_OK c, extend w (snd ?run)))"
    using ok(1) by (simp add: write_valid_run [OF assms(3)])
  show ?thesis
  proof (intro exI conjI)
    show "w25q128fv_write_flash_memory c t start_page page_bytes_offset size' src w
        = Some (Inr (W25Q128FV_EC_OK c, extend w (snd ?run)))"
      by (rule run)
    show "trace (extend w (snd ?run)) = trace w @ snd ?run"
      by (rule trace_extend)
    show "tiles ?a (?a + unat size') (page_programs (snd ?run))"
      by (rule t)
    show "\<forall>i j. i < j \<and> j < length (page_programs (snd ?run)) \<longrightarrow>
            fst (page_programs (snd ?run) ! i) + length (snd (page_programs (snd ?run) ! i))
              \<le> fst (page_programs (snd ?run) ! j)"
      using tiles_disjoint [OF t] by blast
    show "(\<Union>(a, d) \<in> set (page_programs (snd ?run)). {a..<a + length d})
          = {?a..<?a + unat size'}"
      using tiles_union [OF t] by blast
    show "concat (map snd (page_programs (snd ?run))) = map src [0..<unat size']"
      using ok(3) by (simp add: sum_split)
  qed
qed

theorem write_covers_range_witness:
  "codes_ok example_codes \<and> (\<forall>k. spi_status always_ok k = HAL_OK)
   \<and> valid_request 0 250 300
   \<and> (\<exists>w' es.
        w25q128fv_write_flash_memory example_codes always_ok 0 250 300 example_src
          initial_world = Some (Inr (0, w'))
        \<and> trace w' = es
        \<and> tiles 250 550 (page_programs es)
        \<and> (\<Union>(a, d) \<in> set (page_programs es). {a..<a + length d}) = {250..<550}
        \<and> concat (map snd (page_programs es)) = map example_src [0..<300])"
proof -
  have h1: "codes_ok example_codes"
    by (simp add: codes_ok_def example_codes_def)
  have h2: "\<forall>k. spi_status always_ok k = HAL_OK"
    by (simp add: always_ok_def)
  have h3: "valid_request 0 250 300"
    by (simp add: valid_request_def driver_consts)
  have a: "start_address 0 250 = 250"
    by (simp add: start_address_def driver_consts)
  from write_covers_range [OF h1 h2 h3, of example_src initial_world]
  show ?thesis
    using h1 h2 h3 by (simp add: a example_codes_def initial_world_def) blast
qed

text \<open>
  Claim C2, as amended. For every write request whose resolved range lies within the
  device, and a transport on which every call succeeds, the Page Program instructions
  put on the bus are, in order, the chunks of \<open>split_write\<close>: at the start of a page a
  single byte, otherwise \<open>min\<close> of the bytes remaining in the page and the bytes left.
  The witness evaluates the two scenarios: 300 bytes from page 0, offset 250, are written
  as 6, 1, 255, 1 and 37 bytes at the addresses 250, 256, 257, 512 and 513, and a whole page
  from offset 0 as 1 byte and 255 bytes. The counterexample shows that the first scenario
  is not written as 6, 256 and 38 bytes.
\<close>

theorem write_chunk_sizes:
  assumes "codes_ok c" and "\<forall>k. spi_status t k = HAL_OK"
    and "valid_request start_page page_bytes_offset size'"
  shows "\<exists>w' es.
      w25q128fv_write_flash_memory c t start_page page_bytes_offset size' src w
        = Some (Inr (W25Q128FV_EC_OK c, w'))
      \<and> trace w' = trace w @ es
      \<and> program_ranges es = split_write (start_address start_page page_bytes_offset) (unat size')"
proof -
  from write_ok_run [OF assms, of src w] obtain es where
    "w25q128fv_write_flash_memory c t start_page page_bytes_offset size' src w
          = Some (Inr (W25Q128FV_EC_OK c, extend w es))"
    "program_ranges es = split_write (start_address start_page page_bytes_offset) (unat size')"
    by blast
  then show ?thesis
    using trace_extend [of w es] by blast
qed

theorem write_chunk_sizes_witness:
  "codes_ok example_codes \<and> (\<forall>k. spi_status always_ok k = HAL_OK)
   \<and> valid_request 0 250 300 \<and> valid_request 0 0 256
   \<and> (\<exists>w' es.
        w25q128fv_write_flash_memory example_codes always_ok 0 250 300 example_src
          initial_world = Some (Inr (0, w'))
        \<and> trace w' = es
        \<and> program_ranges es = [(250, 6), (256, 1), (257, 255), (512, 1), (513, 37)])
   \<and> (\<exists>w' es.
        w25q128fv_write_flash_memory example_codes always_ok 0 0 256 example_src
          initial_world = Some (Inr (0, w'))
        \<and> trace w' = es
        \<and> program_ranges es = [(0, 1), (1, 255)])"
proof -
  have a: "start_address 0 250 = 250" "start_address 0 0 = 0"
    by (simp_all add: start_address_def driver_consts)
  from write_chunk_sizes [OF example_hyps(1,2,3), of example_src initial_world]
    write_chunk_sizes [OF example_hyps(1,2,4), of example_src initial_world]
  show ?thesis
    using example_hyps
    by (simp add: a split_300 split_page example_codes_def initial_world_def)
qed

theorem three_chunks_counterexample:
  "program_ranges (result_trace
      (w25q128fv_write_flash_memory example_codes always_ok 0 250 300 example_src initial_world))
     = [(250, 6), (256, 1), (257, 255), (512, 1), (513, 37)]
   \<and> program_ranges (result_trace
      (w25q128fv_write_flash_memory example_codes always_ok 0 250 300 example_src initial_world))
     \<noteq> [(250, 6), (256, 256), (512, 38)]
   \<and> program_ranges (result_trace
      (w25q128fv_write_flash_memory example_codes always_ok 0 0 256 example_src initial_world))
     = [(0, 1), (1, 255)]"
proof -
  have a: "start_address 0 250 = 250" "start_address 0 0 = 0"
    by (simp_all add: start_address_def driver_consts)
  from write_ok_run [OF example_hyps(1,2,3), of example_src initial_world]
  have 1: "program_ranges (result_trace
      (w25q128fv_write_flash_memory example_codes always_ok 0 250 300 example_src initial_world))
     = [(250, 6), (256, 1), (257, 255), (512, 1), (513, 37)]"
    by (auto simp add: a split_300 extend_def initial_world_def)
  from write_ok_run [OF example_hyps(1,2,4), of example_src initial_world]
  have 2: "program_ranges (result_trace
      (w25q128fv_write_flash_memory example_codes always_ok 0 0 256 example_src initial_world))
     = [(0, 1), (1, 255)]"
    by (auto simp add: a split_page extend_def initial_world_def)
  show ?thesis
    unfolding 1 2 by simp
qed

text \<open>
  Claim C3. For every write request whose resolved range lies within the device, and
  whatever the transport answers, \<open>w25q128fv_write_flash_memory\<close> returns without an
  access outside \<open>page_program_instruction\<close>: the result is never \<open>Buffer_overrun\<close>, so
  no store goes past the array and no \<open>Size\<close> handed to \<open>HAL_SPI_Transmit\<close> exceeds its
  length (a larger one is a fault of the model, lemma \<open>transmit_size_guard\<close>). The frame
  of a Page Program instruction has exactly \<open>Size\<close> bytes (lemma \<open>array_bytes_length\<close>),
  four of them before the payload, and every payload put on the bus is not empty, lies
  within one page, has at most \<open>W25Q128FV_MAX_CONSECUTIVE_PROGRAMMABLE_BYTES\<close> bytes and,
  with the four bytes before it, fits the
  \<open>W25Q128FV_PAGE_PROGRAM_INSTRUCTION_MAX_SIZE_IN_BYTES\<close> bytes of the array: the bounds
  are bounds on the \<open>Size\<close> the loop has counted.
\<close>

theorem write_chunks_within_page:
  assumes "valid_request start_page page_bytes_offset size'"
  shows "\<exists>r w' es.
      w25q128fv_write_flash_memory c t start_page page_bytes_offset size' src w
        = Some (Inr (r, w'))
      \<and> trace w' = trace w @ es
      \<and> (\<forall>(a, d) \<in> set (page_programs es).
            d \<noteq> []
            \<and> a div W25Q128FV_PAGE_SIZE_IN_BYTES
                = (a + length d - 1) div W25Q128FV_PAGE_SIZE_IN_BYTES
            \<and> length d \<le> W25Q128FV_MAX_CONSECUTIVE_PROGRAMMABLE_BYTES
            \<and> 4 + length d \<le> W25Q128FV_PAGE_PROGRAM_INSTRUCTION_MAX_SIZE_IN_BYTES)"
proof -
  let ?chs = "split_write (start_address start_page page_bytes_offset) (unat size')"
  let ?run = "run_chunks c t src (spi_calls w) 0 ?chs"
  {
    fix a d
    assume "(a, d) \<in> set (page_programs (snd ?run))"
    then have "(a, length d) \<in> set ?chs"
      using run_chunks_programs_sub [OF valid_chunks [OF assms]] by blast
    from split_write_chunks [OF this] have b: "0 < length d" "length d \<le> 255"
      "length d \<le> 256 - a mod 256"
      by simp_all
    from same_page [OF b(1,3)] b have "d \<noteq> []
            \<and> a div W25Q128FV_PAGE_SIZE_IN_BYTES
                = (a + length d - 1) div W25Q128FV_PAGE_SIZE_IN_BYTES
            \<and> length d \<le> W25Q128FV_MAX_CONSECUTIVE_PROGRAMMABLE_BYTES
            \<and> 4 + length d \<le> W25Q128FV_PAGE_PROGRAM_INSTRUCTION_MAX_SIZE_IN_BYTES"
      by (simp add: driver_consts W25Q128FV_MAX_CONSECUTIVE_PROGRAMMABLE_BYTES_def)
  }
  then show ?thesis
    using write_valid_run [OF assms, of c t src w] trace_extend [of w "snd ?run"]
    by blast
qed

theorem write_chunks_within_page_witness:
  "valid_request 0 250 300
   \<and> (\<exists>r w' es.
      w25q128fv_write_flash_memory example_codes always_ok 0 250 300 example_src initial_world
        = Some (Inr (r, w'))
      \<and> trace w' = trace initial_world @ es
      \<and> (\<forall>(a, d) \<in> set (page_programs es).
            d \<noteq> []
            \<and> a div W25Q128FV_PAGE_SIZE_IN_BYTES
                = (a + length d - 1) div W25Q128FV_PAGE_SIZE_IN_BYTES
            \<and> length d \<le> W25Q128FV_MAX_CONSECUTIVE_PROGRAMMABLE_BYTES
            \<and> 4 + length d \<le> W25Q128FV_PAGE_PROGRAM_INSTRUCTION_MAX_SIZE_IN_BYTES))"
proof -
  from example_hyps(3)
    write_chunks_within_page [OF example_hyps(3), of example_codes always_ok example_src
      initial_world]
  show ?thesis
    by (rule conjI)
qed

text \<open>
  Claim C4. The range check adds in 32 bits, so a request whose end address passes
  \<open>2 ^ 32\<close> is not rejected: reading \<open>0xFFFFFFFF\<close> bytes from page 0, offset 1,
  passes the check (the sum wraps to 0) and the instruction goes out on the bus, for
  read and fast read; the same write request returns \<open>W25Q128FV_EC_OK\<close> having written
  nothing, and a write of one byte to page \<open>0x01000000\<close>, whose address wraps as well, is
  programmed at address 0. (Lemmas \<open>out_of_range_rejected\<close> and \<open>bad_sector_rejected\<close> show the
  rejection, with no bus activity, of the requests whose end address stays below
  \<open>2 ^ 32\<close> and of every sector index from \<open>W25Q128FV_TOTAL_SECTORS\<close> on.)
\<close>

theorem wrapped_range_accepted:
  "w25q128fv_read_flash_memory example_codes always_ok 0 1 0xFFFFFFFF initial_world
     = (W25Q128FV_EC_OK example_codes,
        \<lparr>trace = [CS_low, SPI_Transmit [W25Q128FV_READ_DATA_INSTRUCTION, 0, 0, 1],
                  SPI_Receive 65535, CS_high],
         spi_calls = 2\<rparr>)
   \<and> w25q128fv_fast_read_flash_memory example_codes always_ok 0 1 0xFFFFFFFF initial_world
     = (W25Q128FV_EC_OK example_codes,
        \<lparr>trace = [CS_low, SPI_Transmit [W25Q128FV_FAST_READ_INSTRUCTION, 0, 0, 1, 0],
                  SPI_Receive 65535, CS_high],
         spi_calls = 2\<rparr>)
   \<and> w25q128fv_write_flash_memory example_codes always_ok 0 1 0xFFFFFFFF example_src
       initial_world
     = Some (Inr (W25Q128FV_EC_OK example_codes, initial_world))
   \<and> program_ranges (result_trace
        (w25q128fv_write_flash_memory example_codes always_ok 0x01000000 0 1 example_src
           initial_world)) = [(0, 1)]"
proof -
  have w: "w25q128fv_write_flash_memory example_codes always_ok 0 1 0xFFFFFFFF example_src
       initial_world = Some (Inr (W25Q128FV_EC_OK example_codes, initial_world))"
    by (simp add: write_flash_memory_run driver_consts split_write_0 extend_Nil)
  show ?thesis
    unfolding w wrapped_page
    by (simp add: w25q128fv_read_flash_memory_def w25q128fv_fast_read_flash_memory_def
        bus_defs Let_def driver_consts always_ok_def HAL_ret_handler_def example_codes_def
        initial_world_def address_bytes_def)
qed

text \<open>
  Claim C5, as amended. For every write request whose resolved range lies within the
  device, and whatever the transport answers, every SPI call of the write but the last
  one succeeded; when the write returns \<open>W25Q128FV_EC_OK\<close> the last one succeeded too;
  and when it returns anything else, the last SPI call of the write is the one that
  failed, the trace ends with that transmission and the release of the chip select, and
  the value returned is the mapped transport result when the failed transmission is a
  Page Program instruction, and \<open>W25Q128FV_EC_ERR\<close> when it is the Write Enable or the
  Write Disable instruction. The counterexample is a Write Enable step that reports
  \<open>W25Q128FV_EC_NR\<close> while the write returns \<open>W25Q128FV_EC_ERR\<close>.
\<close>

theorem write_aborts_on_first_failure:
  assumes "codes_ok c" and "valid_request start_page page_bytes_offset size'"
  shows "\<exists>r w' es.
      w25q128fv_write_flash_memory c t start_page page_bytes_offset size' src w
        = Some (Inr (r, w'))
      \<and> trace w' = trace w @ es
      \<and> spi_calls w' = spi_calls w + length (filter is_spi es)
      \<and> (\<forall>i. spi_calls w \<le> i \<and> i + 1 < spi_calls w' \<longrightarrow> spi_status t i = HAL_OK)
      \<and> (r = W25Q128FV_EC_OK c \<longrightarrow>
            (\<forall>i. spi_calls w \<le> i \<and> i < spi_calls w' \<longrightarrow> spi_status t i = HAL_OK))
      \<and> (r \<noteq> W25Q128FV_EC_OK c \<longrightarrow>
            spi_calls w < spi_calls w'
            \<and> spi_status t (spi_calls w' - 1) \<noteq> HAL_OK
            \<and> (\<exists>es0 bs. es = es0 @ [SPI_Transmit bs, CS_high]
                 \<and> r = (if hd bs = W25Q128FV_PAGE_PROGRAM_INSTRUCTION
                        then HAL_ret_handler c (hal_value (spi_status t (spi_calls w' - 1)))
                        else W25Q128FV_EC_ERR c)))"
proof -
  let ?run = "run_chunks c t src (spi_calls w) 0
                (split_write (start_address start_page page_bytes_offset) (unat size'))"
  have run: "w25q128fv_write_flash_memory c t start_page page_bytes_offset size' src w
        = Some (Inr (fst ?run, extend w (snd ?run)))"
    by (rule write_valid_run [OF assms(2)])
  have calls: "spi_calls (extend w (snd ?run)) = spi_calls w + length (filter is_spi (snd ?run))"
    by (rule spi_calls_extend)
  note ab = run_chunks_abort [OF assms(1), of "spi_calls w" t src 0
      "split_write (start_address start_page page_bytes_offset) (unat size')",
      folded calls, unfolded spi_result_def]
  show ?thesis
  proof (intro exI conjI)
    show "w25q128fv_write_flash_memory c t start_page page_bytes_offset size' src w
        = Some (Inr (fst ?run, extend w (snd ?run)))"
      by (rule run)
    show "trace (extend w (snd ?run)) = trace w @ snd ?run"
      by (rule trace_extend)
    show "spi_calls (extend w (snd ?run)) = spi_calls w + length (filter is_spi (snd ?run))"
      by (rule calls)
    show "\<forall>i. spi_calls w \<le> i \<and> i + 1 < spi_calls (extend w (snd ?run))
            \<longrightarrow> spi_status t i = HAL_OK"
      using ab by blast
    show "fst ?run = W25Q128FV_EC_OK c \<longrightarrow>
            (\<forall>i. spi_calls w \<le> i \<and> i < spi_calls (extend w (snd ?run))
               \<longrightarrow> spi_status t i = HAL_OK)"
      using ab by blast
    show "fst ?run \<noteq> W25Q128FV_EC_OK c \<longrightarrow>
            spi_calls w < spi_calls (extend w (snd ?run))
            \<and> spi_status t (spi_calls (extend w (snd ?run)) - 1) \<noteq> HAL_OK
            \<and> (\<exists>es0 bs. snd ?run = es0 @ [SPI_Transmit bs, CS_high]
                 \<and> fst ?run = (if hd bs = W25Q128FV_PAGE_PROGRAM_INSTRUCTION
                        then HAL_ret_handler c
                               (hal_value (spi_status t (spi_calls (extend w (snd ?run)) - 1)))
                        else W25Q128FV_EC_ERR c))"
      using ab calls by auto
  qed
qed

theorem write_aborts_on_first_failure_witness:
  "codes_ok example_codes \<and> valid_request 0 250 300
   \<and> (\<exists>r w' es.
      w25q128fv_write_flash_memory example_codes (fails_at 4 HAL_TIMEOUT) 0 250 300 example_src
        initial_world = Some (Inr (r, w'))
      \<and> trace w' = trace initial_world @ es
      \<and> spi_calls w' = spi_calls initial_world + length (filter is_spi es)
      \<and> (\<forall>i. spi_calls initial_world \<le> i \<and> i + 1 < spi_calls w'
             \<longrightarrow> spi_status (fails_at 4 HAL_TIMEOUT) i = HAL_OK)
      \<and> (r = W25Q128FV_EC_OK example_codes \<longrightarrow>
            (\<forall>i. spi_calls initial_world \<le> i \<and> i < spi_calls w'
               \<longrightarrow> spi_status (fails_at 4 HAL_TIMEOUT) i = HAL_OK))
      \<and> (r \<noteq> W25Q128FV_EC_OK example_codes \<longrightarrow>
            spi_calls initial_world < spi_calls w'
            \<and> spi_status (fails_at 4 HAL_TIMEOUT) (spi_calls w' - 1) \<noteq> HAL_OK
            \<and> (\<exists>es0 bs. es = es0 @ [SPI_Transmit bs, CS_high]
                 \<and> r = (if hd bs = W25Q128FV_PAGE_PROGRAM_INSTRUCTION
                        then HAL_ret_handler example_codes
                               (hal_value (spi_status (fails_at 4 HAL_TIMEOUT)
                                  (spi_calls w' - 1)))
                        else W25Q128FV_EC_ERR example_codes))))"
proof -
  have h: "valid_request 0 250 300"
    by (simp add: valid_request_def driver_consts)
  from example_codes_ok h
    write_aborts_on_first_failure [OF example_codes_ok h, of "fails_at 4 HAL_TIMEOUT"
      example_src initial_world]
  show ?thesis
    by (intro conjI)
qed

theorem write_enable_failure_counterexample:
  "fst (send_w25q128fv_write_enable_instruction example_codes always_busy initial_world)
     = W25Q128FV_EC_NR example_codes
   \<and> result_status
        (w25q128fv_write_flash_memory example_codes always_busy 0 0 1 example_src initial_world)
     = Some (W25Q128FV_EC_ERR example_codes)
   \<and> W25Q128FV_EC_ERR example_codes \<noteq> W25Q128FV_EC_NR example_codes"
proof -
  have h: "valid_request 0 0 1"
    by (simp add: valid_request_def driver_consts)
  have a: "start_address 0 0 = 0"
    by (simp add: start_address_def)
  have r: "spi_result example_codes always_busy 0 = W25Q128FV_EC_NR example_codes"
    by (simp add: spi_result_def always_busy_def HAL_ret_handler_def)
  have ne: "W25Q128FV_EC_NR example_codes \<noteq> W25Q128FV_EC_OK example_codes"
    "W25Q128FV_EC_ERR example_codes \<noteq> W25Q128FV_EC_NR example_codes"
    by (simp_all add: example_codes_def)
  show ?thesis
    using r ne
    by (simp add: write_valid_run [OF h] a split_one write_enable_run initial_world_def)
qed

text \<open>
  Claim C6. When both SPI calls of \<open>w25q128fv_read_id\<close> succeed, it returns
  \<open>W25Q128FV_EC_NR\<close> exactly when the three bytes received are all zero; for any other
  three bytes it returns \<open>W25Q128FV_EC_OK\<close> and the identifier stored is
  \<open>b0 * 65536 + b1 * 256 + b2\<close>. The witness is the identifier \<open>0xEF4018\<close> of the
  bytes \<open>0xEF\<close>, \<open>0x40\<close>, \<open>0x18\<close>.
\<close>

theorem read_id_result:
  assumes "codes_ok c" and "spi_status t (spi_calls w) = HAL_OK"
    and "spi_status t (Suc (spi_calls w)) = HAL_OK"
  shows "(fst (w25q128fv_read_id c t p w) = W25Q128FV_EC_NR c \<longleftrightarrow>
            spi_rx t (Suc (spi_calls w)) 0 = 0 \<and> spi_rx t (Suc (spi_calls w)) 1 = 0
            \<and> spi_rx t (Suc (spi_calls w)) 2 = 0)
       \<and> (\<not> (spi_rx t (Suc (spi_calls w)) 0 = 0 \<and> spi_rx t (Suc (spi_calls w)) 1 = 0
              \<and> spi_rx t (Suc (spi_calls w)) 2 = 0) \<longrightarrow>
            fst (w25q128fv_read_id c t p w) = W25Q128FV_EC_OK c
            \<and> unat (content (fst (snd (w25q128fv_read_id c t p w))))
                = unat (spi_rx t (Suc (spi_calls w)) 0) * 65536
                  + unat (spi_rx t (Suc (spi_calls w)) 1) * 256
                  + unat (spi_rx t (Suc (spi_calls w)) 2))"
proof -
  have ne: "W25Q128FV_EC_OK c \<noteq> W25Q128FV_EC_NR c"
    using assms(1) unfolding codes_ok_def by metis
  show ?thesis
    using ne by (simp add: read_id_run [OF assms] Let_def store_id_def pack_id)
qed

theorem read_id_result_witness:
  "codes_ok example_codes \<and> spi_status jedec_transport (spi_calls initial_world) = HAL_OK
   \<and> spi_status jedec_transport (Suc (spi_calls initial_world)) = HAL_OK
   \<and> fst (w25q128fv_read_id example_codes jedec_transport empty_cell initial_world) = 0
   \<and> unat (content (fst (snd
        (w25q128fv_read_id example_codes jedec_transport empty_cell initial_world))))
       = 0xEF4018"
proof -
  have h: "spi_status jedec_transport (spi_calls initial_world) = HAL_OK"
    "spi_status jedec_transport (Suc (spi_calls initial_world)) = HAL_OK"
    by (simp_all add: jedec_transport_def)
  from read_id_result [OF example_codes_ok h, of empty_cell] example_codes_ok h
  show ?thesis
    by (simp add: jedec_transport_def initial_world_def example_codes_def)
qed

text \<open>
  Claim C7. Given that \<open>W25Q128FV_EC_OK\<close> has the value of \<open>HAL_OK\<close>, the status
  mapper sends \<open>HAL_BUSY\<close> and \<open>HAL_TIMEOUT\<close> to \<open>W25Q128FV_EC_NR\<close>, \<open>HAL_ERROR\<close>
  to \<open>W25Q128FV_EC_ERR\<close> and \<open>HAL_OK\<close> to \<open>W25Q128FV_EC_OK\<close>, and the image of
  every value of \<open>HAL_StatusTypeDef\<close> is one of these three.
\<close>

theorem HAL_ret_handler_total:
  assumes "W25Q128FV_EC_OK c = hal_value HAL_OK"
  shows "HAL_ret_handler c (hal_value HAL_BUSY) = W25Q128FV_EC_NR c
       \<and> HAL_ret_handler c (hal_value HAL_TIMEOUT) = W25Q128FV_EC_NR c
       \<and> HAL_ret_handler c (hal_value HAL_ERROR) = W25Q128FV_EC_ERR c
       \<and> HAL_ret_handler c (hal_value HAL_OK) = W25Q128FV_EC_OK c
       \<and> HAL_ret_handler c (hal_value h)
            \<in> {W25Q128FV_EC_OK c, W25Q128FV_EC_NR c, W25Q128FV_EC_ERR c}"
  using assms by (cases h) (simp_all add: HAL_ret_handler_def)

theorem HAL_ret_handler_total_witness:
  "W25Q128FV_EC_OK example_codes = hal_value HAL_OK
   \<and> HAL_ret_handler example_codes (hal_value HAL_BUSY) = 2
   \<and> HAL_ret_handler example_codes (hal_value HAL_TIMEOUT) = 2
   \<and> HAL_ret_handler example_codes (hal_value HAL_ERROR) = 4
   \<and> HAL_ret_handler example_codes (hal_value HAL_OK) = 0"
proof -
  have h: "W25Q128FV_EC_OK example_codes = hal_value HAL_OK"
    by (simp add: example_codes_def)
  from HAL_ret_handler_total [OF h, of HAL_OK] h show ?thesis
    by (simp add: example_codes_def)
qed

text \<open>
  Claim C8. For each of the seven operations that use the bus, for all arguments and
  whatever the transport answers, the events the operation appends to the trace satisfy
  \<open>chip_select False\<close>: every assertion of the chip select finds the line released and
  is followed by its release, every SPI exchange happens between the two, and the line
  is released when the operation returns, on the paths that return early as on the
  others. For the write this includes that it returns at all.
\<close>

theorem chip_select_released:
  "(\<exists>es. trace (snd (w25q128fv_software_reset c t w)) = trace w @ es \<and> chip_select False es)
   \<and> (\<exists>es. trace (snd (snd (w25q128fv_read_id c t p w))) = trace w @ es
         \<and> chip_select False es)
   \<and> (\<exists>es. trace (snd (w25q128fv_read_flash_memory c t start_page page_bytes_offset size' w))
          = trace w @ es \<and> chip_select False es)
   \<and> (\<exists>es. trace (snd (w25q128fv_fast_read_flash_memory c t start_page page_bytes_offset
                          size' w))
          = trace w @ es \<and> chip_select False es)
   \<and> (\<exists>es. trace (snd (w25q128fv_erase_sector c t sector_number w)) = trace w @ es
         \<and> chip_select False es)
   \<and> (\<exists>es. trace (snd (w25q128fv_chip_erase c t w)) = trace w @ es \<and> chip_select False es)
   \<and> (\<exists>r w' es. w25q128fv_write_flash_memory c t start_page page_bytes_offset size' src w
         = Some (Inr (r, w')) \<and> trace w' = trace w @ es \<and> chip_select False es)"
  by (intro conjI reset_cs read_id_cs read_cs fast_read_cs erase_sector_cs chip_erase_cs write_cs)

theorem chip_select_released_witness:
  "(\<exists>es. trace (snd (w25q128fv_software_reset example_codes always_busy initial_world))
          = trace initial_world @ es \<and> chip_select False es)
   \<and> (\<exists>es. trace (snd (snd (w25q128fv_read_id example_codes always_busy empty_cell
                                initial_world)))
          = trace initial_world @ es \<and> chip_select False es)
   \<and> (\<exists>es. trace (snd (w25q128fv_read_flash_memory example_codes always_busy 0 250 300
                          initial_world))
          = trace initial_world @ es \<and> chip_select False es)
   \<and> (\<exists>es. trace (snd (w25q128fv_fast_read_flash_memory example_codes always_busy 0 250 300
                          initial_world))
          = trace initial_world @ es \<and> chip_select False es)
   \<and> (\<exists>es. trace (snd (w25q128fv_erase_sector example_codes always_busy 7 initial_world))
          = trace initial_world @ es \<and> chip_select False es)
   \<and> (\<exists>es. trace (snd (w25q128fv_chip_erase example_codes always_busy initial_world))
          = trace initial_world @ es \<and> chip_select False es)
   \<and> (\<exists>r w' es. w25q128fv_write_flash_memory example_codes always_busy 0 250 300
                       example_src initial_world
         = Some (Inr (r, w')) \<and> trace w' = trace initial_world @ es \<and> chip_select False es)"
  by (rule chip_select_released)

text \<open>
  Claim C9. For every start position within the device, a write of \<open>size = 0\<close> returns
  \<open>W25Q128FV_EC_OK\<close> and leaves the world as it was: no event is appended to the trace
  and no SPI call is made.
\<close>

theorem write_nothing:
  assumes "unat start_page * W25Q128FV_PAGE_SIZE_IN_BYTES + unat page_bytes_offset
             \<le> W25Q128FV_FLASH_MEMORY_TOTAL_SIZE_IN_BYTES"
  shows "w25q128fv_write_flash_memory c t start_page page_bytes_offset 0 src w
           = Some (Inr (W25Q128FV_EC_OK c, w))"
proof -
  have "valid_request start_page page_bytes_offset 0"
    using assms by (simp add: valid_request_def)
  from write_valid_run [OF this, of c t src w] show ?thesis
    by (simp add: split_write_0 extend_Nil)
qed

theorem write_nothing_witness:
  "unat (7 :: uint32_t) * W25Q128FV_PAGE_SIZE_IN_BYTES + unat (250 :: uint8_t)
             \<le> W25Q128FV_FLASH_MEMORY_TOTAL_SIZE_IN_BYTES
   \<and> w25q128fv_write_flash_memory example_codes always_busy 7 250 0 example_src initial_world
           = Some (Inr (0, initial_world))"
proof -
  have h: "unat (7 :: uint32_t) * W25Q128FV_PAGE_SIZE_IN_BYTES + unat (250 :: uint8_t)
             \<le> W25Q128FV_FLASH_MEMORY_TOTAL_SIZE_IN_BYTES"
    by (simp add: driver_consts)
  from write_nothing [OF h, of example_codes always_busy example_src initial_world] h
  show ?thesis
    by (simp add: example_codes_def)
qed

text \<open>
  Claim C10. Whenever \<open>w25q128fv_read_id\<close> returns anything but \<open>W25Q128FV_EC_OK\<close>,
  the location \<open>*w25q128fv_id\<close> is as it was, its content and its count of stores; when
  it returns \<open>W25Q128FV_EC_OK\<close>, exactly one store has been made.
\<close>

theorem read_id_frame:
  assumes "codes_ok c"
  shows "(fst (w25q128fv_read_id c t p w) \<noteq> W25Q128FV_EC_OK c \<longrightarrow>
            fst (snd (w25q128fv_read_id c t p w)) = p)
       \<and> (fst (w25q128fv_read_id c t p w) = W25Q128FV_EC_OK c \<longrightarrow>
            stores (fst (snd (w25q128fv_read_id c t p w))) = Suc (stores p))"
proof -
  have ne: "W25Q128FV_EC_NR c \<noteq> W25Q128FV_EC_OK c"
    using assms unfolding codes_ok_def by metis
  show ?thesis
    using ne
    by (simp add: w25q128fv_read_id_def HAL_SPI_Transmit_def HAL_SPI_Receive_def
        set_cs_pin_low_def set_cs_pin_high_def Let_def store_id_def)
qed

theorem read_id_frame_witness:
  "codes_ok example_codes
   \<and> fst (w25q128fv_read_id example_codes always_busy empty_cell initial_world)
       \<noteq> W25Q128FV_EC_OK example_codes
   \<and> fst (snd (w25q128fv_read_id example_codes always_busy empty_cell initial_world))
       = empty_cell"
proof -
  have ne: "fst (w25q128fv_read_id example_codes always_busy empty_cell initial_world)
       \<noteq> W25Q128FV_EC_OK example_codes"
    by (simp add: w25q128fv_read_id_def HAL_SPI_Transmit_def set_cs_pin_low_def
        set_cs_pin_high_def Let_def always_busy_def HAL_ret_handler_def example_codes_def)
  from read_id_frame [OF example_codes_ok, of always_busy empty_cell initial_world] ne
    example_codes_ok
  show ?thesis
    by blast
qed

end
